theory Spec2Isabelle
  imports Main "HOL-Library.Word" "HOL-Library.Sublist"
begin

section \<open>Data model of the incremental collector (tgc.cpp)\<close>

text \<open>
  Addresses are natural numbers. A pointer that may be null is an \<open>addr option\<close>.
  The three stores of the model are the memory the collector reaches through pointers:
  handle objects (\<open>PtrBase\<close>), allocation headers (\<open>ObjMeta\<close>) and the per-type
  descriptors (\<open>ClassInfo\<close>, statics that live as long as the process).
\<close>

type_synonym addr = nat

datatype MarkColor = Unmarked | Gray | Alive

text \<open>\<open>ClassInfo::State\<close>; the code compares it with \<open>Registered\<close> only.\<close>

datatype RegState = Unregistered | Registering | Registered

text \<open>
  \<open>enum class State\<close> of tgc.cpp. Its fourth enumerator \<open>MaxCnt\<close> only sizes the table of
  state names and is never stored in \<open>Collector::state\<close>.
\<close>

datatype State = RootMarking | ChildMarking | Sweeping

text \<open>
  The fields of \<open>ClassInfo\<close> that tgc.cpp reads and writes. \<open>size_bytes\<close> is the field
  \<open>size\<close>, \<open>regState\<close> the field \<open>state\<close>. Modelled from the spec: the declaration
  (tgc.h) is not part of the sources, the spec gives the offsets as a sequence of
  unsigned 16-bit values.
\<close>

record ClassInfo =
  size_bytes :: nat
  subPtrOffsets :: "16 word list"
  regState :: RegState

record ObjMeta =
  clsInfo :: nat
  markState :: MarkColor
  arrayLength :: nat
  objPtr :: addr

text \<open>\<open>isRoot\<close> holds 0 or 1 in the code; the model uses a truth value.\<close>

record PtrBase =
  meta :: "addr option"
  isRoot :: bool
  index :: nat

section \<open>Class-info discovery: \<open>ClassInfo::registerSubPtr\<close>\<close>

text \<open>
  \<open>offset\<close> is a \<open>short\<close>: the pointer difference is truncated to 16 bits and read as
  signed. In \<open>offset <= subPtrOffsets.back()\<close> both operands are promoted to \<open>int\<close>:
  the signed value of \<open>offset\<close> against the unsigned value of the stored element.
  The first argument is the owner's class, the second the owner's payload address
  \<open>owner->objPtr()\<close>, the third the address of the handle.
\<close>

definition registerSubPtr :: "ClassInfo \<Rightarrow> addr \<Rightarrow> addr \<Rightarrow> ClassInfo" where
  "registerSubPtr cls payload p =
     (if regState cls = Registered then cls
      else
        let offset = (word_of_int (int p - int payload) :: 16 word) in
        if subPtrOffsets cls \<noteq> [] \<and> sint offset \<le> uint (last (subPtrOffsets cls)) then cls
        else cls\<lparr>subPtrOffsets := subPtrOffsets cls @ [offset]\<rparr>)"

text \<open>A series of calls on one class: each pair is an owner payload and a handle address.\<close>

fun registerSubPtrs :: "ClassInfo \<Rightarrow> (addr \<times> addr) list \<Rightarrow> ClassInfo" where
  "registerSubPtrs cls [] = cls"
| "registerSubPtrs cls ((payload, p) # calls) = registerSubPtrs (registerSubPtr cls payload p) calls"

definition strictly_increasing :: "16 word list \<Rightarrow> bool" where
  "strictly_increasing offs = sorted_wrt (<) (map uint offs)"

section \<open>The collector's state\<close>

text \<open>
  Modelled from the spec: \<open>ObjMeta\<close>'s destructor and \<open>operator delete\<close> are declared
  in tgc.h, which is not part of the sources. The spec: "Destruction invokes
  \<open>cls.dctor(payload)\<close> then frees the metadata+payload block". What the user's
  destructor does beyond being called is outside the model, so a \<open>delete\<close> is recorded
  as two events, in their order.
\<close>

datatype event = Dctor addr | Free addr

text \<open>
  The fields of \<open>Collector\<close>, preceded by the memory it works on. \<open>pointers\<close>,
  \<open>grayObjs\<close> hold addresses as the vectors do. \<open>metaSet\<close> is the \<open>std::set\<close> listed
  in iteration order, and the iterator \<open>nextSweeping\<close> is its position in that
  order: \<open>begin()\<close> is 0 and \<open>end()\<close> is the length. \<open>isCreatingObj\<close> is the static
  counter \<open>ClassInfo::isCreatingObj\<close>. \<open>dctorLog\<close> records the deletions.
\<close>

record Collector =
  ptrs :: "addr \<rightharpoonup> PtrBase"
  metas :: "addr \<rightharpoonup> ObjMeta"
  classes :: "nat \<Rightarrow> ClassInfo"
  isCreatingObj :: int
  pointers :: "addr list"
  grayObjs :: "addr list"
  metaSet :: "addr list"
  nextSweeping :: nat
  nextRootMarking :: nat
  state :: State
  dctorLog :: "event list"

text \<open>The collector as its constructor leaves it, on a memory without handles or objects.\<close>

definition Collector_init :: "(nat \<Rightarrow> ClassInfo) \<Rightarrow> Collector" where
  "Collector_init cs =
     \<lparr>ptrs = Map.empty, metas = Map.empty, classes = cs, isCreatingObj = 0,
      pointers = [], grayObjs = [], metaSet = [], nextSweeping = 0, nextRootMarking = 0,
      state = RootMarking, dctorLog = []\<rparr>"

subsection \<open>Operations of \<open>ObjMeta\<close> and \<open>ClassInfo\<close> declared in tgc.h\<close>

text \<open>
  Modelled from the spec: \<open>ObjMeta::operator<\<close> (the order of the \<open>MetaSet\<close>) is
  declared in tgc.h, which is not part of the sources. The spec:
  "\<open>a < b \<Leftrightarrow> a.payload + a.size \<le> b.payload\<close>". \<open>ObjInfo::Less\<close> of gcptr.cpp is the
  same comparison.
\<close>

definition ObjMeta_less :: "(nat \<Rightarrow> ClassInfo) \<Rightarrow> ObjMeta \<Rightarrow> ObjMeta \<Rightarrow> bool" where
  "ObjMeta_less cs x y \<longleftrightarrow> objPtr x + size_bytes (cs (clsInfo x)) \<le> objPtr y"

text \<open>
  Modelled from the spec: \<open>ObjMeta::containsPtr\<close> is declared in tgc.h. The spec's
  owner containment: "\<open>o.payload \<le> &p < o.payload + o.size\<close>".
  \<open>ObjInfo::containsPointer\<close> of gcptr.cpp is the same test.
\<close>

definition containsPtr :: "(nat \<Rightarrow> ClassInfo) \<Rightarrow> ObjMeta \<Rightarrow> addr \<Rightarrow> bool" where
  "containsPtr cs x p \<longleftrightarrow> objPtr x \<le> p \<and> p < objPtr x + size_bytes (cs (clsInfo x))"

text \<open>
  Modelled from the spec: \<open>ClassInfo::enumPtrs\<close> is declared in tgc.h. The spec: "for
  each known sub-pointer offset of the handle's owner ClassInfo, compute the address of
  the sub-handle inside the pointed-to object". The result lists the addresses the
  iterator yields.
\<close>

definition enumPtrs :: "(nat \<Rightarrow> ClassInfo) \<Rightarrow> ObjMeta \<Rightarrow> addr list" where
  "enumPtrs cs x = map (\<lambda>off. objPtr x + unat off) (subPtrOffsets (cs (clsInfo x)))"

text \<open>
  \<open>DummyMetaInfo\<close> with \<open>dummyObjPtr\<close> set to \<open>obj\<close>: the search key of
  \<open>findOwnerMeta\<close>. Its class is \<open>ClassInfo::Empty\<close>, which the comparison does not
  read when the key is the right operand.
\<close>

definition DummyMetaInfo :: "addr \<Rightarrow> ObjMeta" where
  "DummyMetaInfo obj = \<lparr>clsInfo = 0, markState = Unmarked, arrayLength = 0, objPtr = obj\<rparr>"

text \<open>\<open>delete meta\<close>: the destructor thunk is called, then the block is freed.\<close>

definition delete_meta :: "addr \<Rightarrow> Collector \<Rightarrow> Collector" where
  "delete_meta m c = c\<lparr>metas := (metas c)(m := None), dctorLog := dctorLog c @ [Dctor m, Free m]\<rparr>"

subsection \<open>Writes through pointers\<close>

definition set_markState :: "addr \<Rightarrow> MarkColor \<Rightarrow> Collector \<Rightarrow> Collector" where
  "set_markState m k c = c\<lparr>metas := (metas c)(m := map_option (\<lambda>x. x\<lparr>markState := k\<rparr>) (metas c m))\<rparr>"

definition set_isRoot :: "addr \<Rightarrow> bool \<Rightarrow> Collector \<Rightarrow> Collector" where
  "set_isRoot p b c = c\<lparr>ptrs := (ptrs c)(p := map_option (\<lambda>h. h\<lparr>isRoot := b\<rparr>) (ptrs c p))\<rparr>"

definition set_index :: "addr \<Rightarrow> nat \<Rightarrow> Collector \<Rightarrow> Collector" where
  "set_index p i c = c\<lparr>ptrs := (ptrs c)(p := map_option (\<lambda>h. h\<lparr>index := i\<rparr>) (ptrs c p))\<rparr>"

definition set_meta :: "addr \<Rightarrow> addr option \<Rightarrow> Collector \<Rightarrow> Collector" where
  "set_meta p m c = c\<lparr>ptrs := (ptrs c)(p := map_option (\<lambda>h. h\<lparr>meta := m\<rparr>) (ptrs c p))\<rparr>"

subsection \<open>\<open>Collector::findOwnerMeta\<close>\<close>

text \<open>
  \<open>metaSet.lower_bound(&DummyMetaInfo)\<close>: the first element, in iteration order, that
  is not less than the key. The outer \<open>option\<close> is the fault of reading an \<open>ObjMeta\<close>
  that is not allocated; the inner one is the iterator, \<open>None\<close> for \<open>end()\<close>.
\<close>

fun lower_bound :: "Collector \<Rightarrow> ObjMeta \<Rightarrow> addr list \<Rightarrow> addr option option" where
  "lower_bound c key [] = Some None"
| "lower_bound c key (m # ms) =
     (case metas c m of
        None \<Rightarrow> None
      | Some x \<Rightarrow> if ObjMeta_less (classes c) x key then lower_bound c key ms else Some (Some m))"

definition findOwnerMeta :: "Collector \<Rightarrow> addr \<Rightarrow> addr option option" where
  "findOwnerMeta c obj =
     (case lower_bound c (DummyMetaInfo obj) (metaSet c) of
        None \<Rightarrow> None
      | Some None \<Rightarrow> Some None
      | Some (Some i) \<Rightarrow>
          (case metas c i of
             None \<Rightarrow> None
           | Some x \<Rightarrow> if \<not> containsPtr (classes c) x obj then Some None else Some (Some i)))"

subsection \<open>\<open>Collector::tryMarkRoot\<close> and the write barrier \<open>Collector::onPointeeChanged\<close>\<close>

text \<open>
  Every operation returns \<open>None\<close> where the code would read or write through a pointer
  to memory that holds no such object (a fault), and the new state otherwise.
  \<open>tryMarkRoot\<close> reads \<open>p->meta->markState\<close> without a test of \<open>p->meta\<close>: its callers
  test it. In state Sweeping the barrier reads \<open>**nextSweeping\<close> without a test for
  \<open>end()\<close>: with the cursor at the end of the set there is no element, a fault.
\<close>

definition tryMarkRoot :: "addr \<Rightarrow> Collector \<Rightarrow> Collector option" where
  "tryMarkRoot p c =
     (case ptrs c p of
        None \<Rightarrow> None
      | Some h \<Rightarrow>
          if isRoot h then
            (case meta h of
               None \<Rightarrow> None
             | Some m \<Rightarrow>
                 (case metas c m of
                    None \<Rightarrow> None
                  | Some x \<Rightarrow>
                      if markState x = Unmarked
                      then Some ((set_markState m Gray c)\<lparr>grayObjs := grayObjs c @ [m]\<rparr>)
                      else Some c))
          else Some c)"

definition onPointeeChanged :: "addr \<Rightarrow> Collector \<Rightarrow> Collector option" where
  "onPointeeChanged p c =
     (case ptrs c p of
        None \<Rightarrow> None
      | Some h \<Rightarrow>
          (case meta h of
             None \<Rightarrow> Some c
           | Some m \<Rightarrow>
               (case state c of
                  RootMarking \<Rightarrow> if index h < nextRootMarking c then tryMarkRoot p c else Some c
                | ChildMarking \<Rightarrow> tryMarkRoot p c
                | Sweeping \<Rightarrow>
                    (case metas c m of
                       None \<Rightarrow> None
                     | Some x \<Rightarrow>
                         if markState x = Unmarked then
                           (if nextSweeping c < length (metaSet c) then
                              (case metas c (metaSet c ! nextSweeping c) of
                                 None \<Rightarrow> None
                               | Some cur \<Rightarrow>
                                   if ObjMeta_less (classes c) x cur then Some c
                                   else Some (set_markState m Alive c))
                            else None)
                         else Some c))))"

subsection \<open>\<open>Collector::registerPtr\<close> and \<open>Collector::unregisterPtr\<close>\<close>

definition registerPtr :: "addr \<Rightarrow> Collector \<Rightarrow> Collector option" where
  "registerPtr p c =
     (case ptrs c p of
        None \<Rightarrow> None
      | Some h \<Rightarrow>
          let c1 = (set_index p (length (pointers c)) c)\<lparr>pointers := pointers c @ [p]\<rparr> in
          if isCreatingObj c1 > 0 then
            (case findOwnerMeta c1 p of
               None \<Rightarrow> None
             | Some None \<Rightarrow> Some c1
             | Some (Some owner) \<Rightarrow>
                 (case metas c1 owner of
                    None \<Rightarrow> None
                  | Some x \<Rightarrow>
                      Some ((set_isRoot p False c1)
                        \<lparr>classes := (classes c1)
                           (clsInfo x := registerSubPtr (classes c1 (clsInfo x)) (objPtr x) p)\<rparr>)))
          else Some c1)"

text \<open>
  \<open>pointers.back()\<close> of an empty vector and \<open>pointers[p->index]\<close> beyond its size
  are faults. \<open>swap\<close> followed by \<open>pop_back\<close> leaves the former last element in the
  slot \<open>p->index\<close>.
\<close>

definition unregisterPtr :: "addr \<Rightarrow> Collector \<Rightarrow> Collector option" where
  "unregisterPtr p c =
     (if pointers c = [] then None
      else if p = last (pointers c) then Some (c\<lparr>pointers := butlast (pointers c)\<rparr>)
      else
        (case ptrs c p of
           None \<Rightarrow> None
         | Some h \<Rightarrow>
             if index h < length (pointers c) then
               let pointer = last (pointers c) in
               (case ptrs c pointer of
                  None \<Rightarrow> None
                | Some h' \<Rightarrow>
                    let c1 = (set_index pointer (index h) c)
                               \<lparr>pointers := butlast ((pointers c)[index h := pointer])\<rparr> in
                    (case ptrs c1 pointer of
                       None \<Rightarrow> None
                     | Some hp \<Rightarrow>
                         if meta hp = None then Some c1
                         else if state c1 = RootMarking then
                           (case ptrs c1 p of
                              None \<Rightarrow> None
                            | Some h1 \<Rightarrow>
                                if index h1 < nextRootMarking c1 then tryMarkRoot pointer c1
                                else Some c1)
                         else Some c1))
             else None))"

subsection \<open>Construction and destruction of a handle\<close>

text \<open>
  \<open>PtrBase::PtrBase()\<close> initialises \<open>meta\<close> to null and \<open>isRoot\<close> to 1 and registers
  the handle; \<open>index\<close> has no value before \<open>registerPtr\<close> assigns it. The destructor
  unregisters the handle, whose memory then no longer holds a handle.
\<close>

definition PtrBase_ctor :: "addr \<Rightarrow> Collector \<Rightarrow> Collector option" where
  "PtrBase_ctor p c =
     registerPtr p (c\<lparr>ptrs := (ptrs c)(p \<mapsto> \<lparr>meta = None, isRoot = True, index = 0\<rparr>)\<rparr>)"

definition PtrBase_dtor :: "addr \<Rightarrow> Collector \<Rightarrow> Collector option" where
  "PtrBase_dtor p c = map_option (\<lambda>c'. c'\<lparr>ptrs := (ptrs c')(p := None)\<rparr>) (unregisterPtr p c)"

subsection \<open>\<open>Collector::collect\<close>\<close>

text \<open>
  The inner loop of the RootMarking case, \<open>it->getNext()->isRoot = 0\<close> for every
  sub-handle of the pointee.
\<close>

fun clearRoots :: "addr list \<Rightarrow> Collector \<Rightarrow> Collector option" where
  "clearRoots [] c = Some c"
| "clearRoots (a # as) c =
     (case ptrs c a of
        None \<Rightarrow> None
      | Some h \<Rightarrow> clearRoots as (set_isRoot a False c))"

text \<open>
  One iteration of the RootMarking loop with its increment \<open>nextRootMarking++\<close>, which
  \<open>continue\<close> reaches too.
\<close>

definition rootMarkStep :: "Collector \<Rightarrow> Collector option" where
  "rootMarkStep c =
     (let p = pointers c ! nextRootMarking c in
      case ptrs c p of
        None \<Rightarrow> None
      | Some h \<Rightarrow>
          (case meta h of
             None \<Rightarrow> Some (c\<lparr>nextRootMarking := nextRootMarking c + 1\<rparr>)
           | Some m \<Rightarrow>
               (case metas c m of
                  None \<Rightarrow> None
                | Some x \<Rightarrow>
                    (case clearRoots (enumPtrs (classes c) x) c of
                       None \<Rightarrow> None
                     | Some c1 \<Rightarrow>
                         (case tryMarkRoot p c1 of
                            None \<Rightarrow> None
                          | Some c2 \<Rightarrow>
                              Some (c2\<lparr>nextRootMarking := nextRootMarking c2 + 1\<rparr>))))))"

text \<open>
  The inner loop of the ChildMarking case over the sub-handles of the popped object: a
  sub-handle whose \<open>meta\<close> is null is passed over by \<open>continue\<close>, the \<open>meta\<close> of any
  other is read, and pushed when its mark is \<open>Unmarked\<close>.
\<close>

fun scanChildren :: "addr list \<Rightarrow> Collector \<Rightarrow> Collector option" where
  "scanChildren [] c = Some c"
| "scanChildren (a # as) c =
     (case ptrs c a of
        None \<Rightarrow> None
      | Some h \<Rightarrow>
          (case meta h of
             None \<Rightarrow> scanChildren as c
           | Some m \<Rightarrow>
               (case metas c m of
                  None \<Rightarrow> None
                | Some x \<Rightarrow>
                    if markState x = Unmarked
                    then scanChildren as (c\<lparr>grayObjs := grayObjs c @ [m]\<rparr>)
                    else scanChildren as c)))"

text \<open>
  One iteration of the ChildMarking loop, entered with \<open>grayObjs\<close> not empty. The
  second component is the number of sub-handles enumerated: the inner loop decrements
  \<open>stepCnt\<close> once for each.
\<close>

definition childMarkStep :: "Collector \<Rightarrow> (Collector \<times> nat) option" where
  "childMarkStep c =
     (let ob = last (grayObjs c);
          c1 = c\<lparr>grayObjs := butlast (grayObjs c)\<rparr> in
      case metas c1 ob of
        None \<Rightarrow> None
      | Some x \<Rightarrow>
          let c2 = set_markState ob Alive c1;
              subs = enumPtrs (classes c2) x in
          map_option (\<lambda>c3. (c3, length subs)) (scanChildren subs c2))"

text \<open>
  One iteration of the Sweeping loop, entered with the cursor before the end.
  \<open>metaSet.erase(nextSweeping)\<close> returns the iterator of the following element, which
  takes the erased one's position.
\<close>

definition sweepStep :: "Collector \<Rightarrow> Collector option" where
  "sweepStep c =
     (let i = nextSweeping c; m = metaSet c ! i in
      case metas c m of
        None \<Rightarrow> None
      | Some x \<Rightarrow>
          if markState x = Unmarked
          then Some (delete_meta m (c\<lparr>metaSet := take i (metaSet c) @ drop (Suc i) (metaSet c)\<rparr>))
          else Some ((set_markState m Unmarked c)\<lparr>nextSweeping := i + 1\<rparr>))"

text \<open>
  \<open>collect(stepCnt)\<close>. Every \<open>goto\<close> of the code jumps to the case label of the state it
  has just stored in \<open>state\<close>, so a jump is a new dispatch on \<open>state\<close> with the
  current \<open>stepCnt\<close>. A loop test \<open>stepCnt-- > 0\<close> that fails ends the call: the
  other conjunct of the loop condition held, so the transition after the loop is not
  taken. \<open>stepCnt\<close> is an \<open>int\<close> of the code; it only decreases, and the model does
  not bound it from below.
\<close>

function collect :: "int \<Rightarrow> Collector \<Rightarrow> Collector option" where
  "collect stepCnt c =
     (case state c of
        RootMarking \<Rightarrow>
          if nextRootMarking c < length (pointers c) then
            (if stepCnt > 0 then
               (case rootMarkStep c of
                  None \<Rightarrow> None
                | Some c' \<Rightarrow> collect (stepCnt - 1) c')
             else Some c)
          else collect stepCnt (c\<lparr>state := ChildMarking, nextRootMarking := 0\<rparr>)
      | ChildMarking \<Rightarrow>
          if grayObjs c \<noteq> [] then
            (if stepCnt > 0 then
               (case childMarkStep c of
                  None \<Rightarrow> None
                | Some (c', k) \<Rightarrow> collect (stepCnt - 1 - int k) c')
             else Some c)
          else collect stepCnt (c\<lparr>state := Sweeping, nextSweeping := 0\<rparr>)
      | Sweeping \<Rightarrow>
          if nextSweeping c < length (metaSet c) then
            (if stepCnt > 0 then
               (case sweepStep c of
                  None \<Rightarrow> None
                | Some c' \<Rightarrow> collect (stepCnt - 1) c')
             else Some c)
          else if metaSet c \<noteq> [] then collect stepCnt (c\<lparr>state := RootMarking\<rparr>)
          else Some (c\<lparr>state := RootMarking\<rparr>))"
  by pat_completeness auto

text \<open>
  The remaining budget decreases with every unit of work; between two units the call
  passes through the states in the order RootMarking, ChildMarking, Sweeping, and
  returns to RootMarking only from a sweep that has reached the end of a set that is
  not empty, so the following sweep starts before the end.
\<close>

definition phase_rank :: "Collector \<Rightarrow> nat" where
  "phase_rank c =
     (case state c of
        RootMarking \<Rightarrow> 2
      | ChildMarking \<Rightarrow> 1
      | Sweeping \<Rightarrow> if nextSweeping c < length (metaSet c) \<or> metaSet c = [] then 0 else 3)"

termination collect
  by (relation "measures [\<lambda>(n, c). nat n, \<lambda>(n, c). phase_rank c]")
     (auto simp: phase_rank_def)

declare collect.simps [simp del]

definition gc_collect :: "int \<Rightarrow> Collector \<Rightarrow> Collector option" where
  "gc_collect steps c = collect steps c"

section \<open>Predicates of the properties\<close>

text \<open>The object at \<open>m\<close> is allocated and its payload range contains \<open>p\<close>.\<close>

definition owns :: "Collector \<Rightarrow> addr \<Rightarrow> addr \<Rightarrow> bool" where
  "owns c m p = (case metas c m of None \<Rightarrow> False | Some x \<Rightarrow> containsPtr (classes c) x p)"

text \<open>The order of the \<open>MetaSet\<close> on the addresses it holds.\<close>

definition meta_lt :: "Collector \<Rightarrow> addr \<Rightarrow> addr \<Rightarrow> bool" where
  "meta_lt c a b =
     (case metas c a of
        None \<Rightarrow> False
      | Some x \<Rightarrow> (case metas c b of None \<Rightarrow> False | Some y \<Rightarrow> ObjMeta_less (classes c) x y))"

text \<open>
  The \<open>MetaSet\<close> holds allocated headers whose payload ranges do not overlap: listed
  in iteration order, every range ends before the start of every later one.
\<close>

definition metaSet_ok :: "Collector \<Rightarrow> bool" where
  "metaSet_ok c \<longleftrightarrow> set (metaSet c) \<subseteq> dom (metas c) \<and> sorted_wrt (meta_lt c) (metaSet c)"

section \<open>Example heaps\<close>

text \<open>Every class has 16 bytes and no sub-pointer.\<close>

definition cs16 :: "nat \<Rightarrow> ClassInfo" where
  "cs16 = (\<lambda>k. \<lparr>size_bytes = 16, subPtrOffsets = [], regState = Registered\<rparr>)"

text \<open>Two objects of 16 bytes, at 1008 and at 2008, and no handle.\<close>

definition heap2 :: Collector where
  "heap2 = (Collector_init cs16)
     \<lparr>metas := [1000 \<mapsto> \<lparr>clsInfo = 0, markState = Unmarked, arrayLength = 1, objPtr = 1008\<rparr>,
                2000 \<mapsto> \<lparr>clsInfo = 0, markState = Unmarked, arrayLength = 1, objPtr = 2008\<rparr>],
      metaSet := [1000, 2000]\<rparr>"



text \<open>
  What the mutator and the collector do to the registry: a handle is constructed at an
  address, a handle is destructed, the collector runs some steps, a write barrier fires.
\<close>

datatype handle_op = Construct addr | Destruct addr | Collect int | PointeeChanged addr

fun run_op :: "handle_op \<Rightarrow> Collector \<Rightarrow> Collector option" where
  "run_op (Construct p) c = PtrBase_ctor p c"
| "run_op (Destruct p) c = PtrBase_dtor p c"
| "run_op (Collect n) c = collect n c"
| "run_op (PointeeChanged p) c = onPointeeChanged p c"

fun run_ops :: "handle_op list \<Rightarrow> Collector \<Rightarrow> Collector option" where
  "run_ops [] c = Some c"
| "run_ops (x # xs) c = (case run_op x c of None \<Rightarrow> None | Some c' \<Rightarrow> run_ops xs c')"



text \<open>While the collector sweeps, the work list is empty.\<close>

definition sweeping_gray_empty :: "Collector \<Rightarrow> bool" where
  "sweeping_gray_empty c \<longleftrightarrow> (state c = Sweeping \<longrightarrow> grayObjs c = [])"

text \<open>
  Every class is a node of 16 bytes with one sub-pointer, at offset 0.
\<close>

definition cs_node :: "nat \<Rightarrow> ClassInfo" where
  "cs_node = (\<lambda>k. \<lparr>size_bytes = 16, subPtrOffsets = [0], regState = Registered\<rparr>)"

text \<open>
  Three nodes with headers at 1000, 2000 and 3000 and payloads at 1008, 2008 and 3008.
  The root handle at 10 points to the first node, whose sub-pointer points to the second;
  the sub-pointers of the second and the third are null. Nothing points to the third.
\<close>

definition heap_chain :: Collector where
  "heap_chain = (Collector_init cs_node)
     \<lparr>ptrs := [10 \<mapsto> \<lparr>meta = Some 1000, isRoot = True, index = 0\<rparr>,
               1008 \<mapsto> \<lparr>meta = Some 2000, isRoot = False, index = 1\<rparr>,
               2008 \<mapsto> \<lparr>meta = None, isRoot = False, index = 2\<rparr>,
               3008 \<mapsto> \<lparr>meta = None, isRoot = False, index = 3\<rparr>],
      metas := [1000 \<mapsto> \<lparr>clsInfo = 0, markState = Unmarked, arrayLength = 1, objPtr = 1008\<rparr>,
                2000 \<mapsto> \<lparr>clsInfo = 0, markState = Unmarked, arrayLength = 1, objPtr = 2008\<rparr>,
                3000 \<mapsto> \<lparr>clsInfo = 0, markState = Unmarked, arrayLength = 1, objPtr = 3008\<rparr>],
      pointers := [10, 1008, 2008, 3008],
      metaSet := [1000, 2000, 3000]\<rparr>"

text \<open>
  The sub-handles at the addresses \<open>subs\<close> can be read: each address holds a handle,
  whose \<open>meta\<close> is null or points to an allocated header.
\<close>

definition subs_ok :: "Collector \<Rightarrow> addr list \<Rightarrow> bool" where
  "subs_ok c subs \<longleftrightarrow>
     (\<forall>a \<in> set subs.
        case ptrs c a of
          None \<Rightarrow> False
        | Some h \<Rightarrow> (case meta h of None \<Rightarrow> True | Some m \<Rightarrow> metas c m \<noteq> None))"

text \<open>
  The pointees of the sub-handles at \<open>subs\<close> that have a non-null \<open>meta\<close> whose mark is
  \<open>Unmarked\<close>, one entry for each such sub-handle, in the order of the sub-handles.
\<close>

definition unmarked_children :: "Collector \<Rightarrow> addr list \<Rightarrow> addr list" where
  "unmarked_children c subs =
     List.map_filter
       (\<lambda>a. case ptrs c a of
              None \<Rightarrow> None
            | Some h \<Rightarrow>
                (case meta h of
                   None \<Rightarrow> None
                 | Some m \<Rightarrow>
                     (case metas c m of
                        None \<Rightarrow> None
                      | Some x \<Rightarrow> if markState x = Unmarked then Some m else None)))
       subs"

text \<open>
  The chain after the root handle and the first node have been marked: the first node
  is \<open>Alive\<close>, the second is in the work list.
\<close>

definition heap_chain_marking :: Collector where
  "heap_chain_marking = heap_chain
     \<lparr>metas := (metas heap_chain)
        (1000 \<mapsto> \<lparr>clsInfo = 0, markState = Alive, arrayLength = 1, objPtr = 1008\<rparr>),
      grayObjs := [2000], state := ChildMarking\<rparr>"

text \<open>The header at \<open>m\<close> is allocated and its mark is \<open>Unmarked\<close>.\<close>

definition is_unmarked :: "Collector \<Rightarrow> addr \<Rightarrow> bool" where
  "is_unmarked c m \<longleftrightarrow> map_option markState (metas c m) = Some Unmarked"

text \<open>The next \<open>k\<close> headers the sweep cursor visits, in the order of the set.\<close>

definition sweep_visited :: "nat \<Rightarrow> Collector \<Rightarrow> addr list" where
  "sweep_visited k c = take k (drop (nextSweeping c) (metaSet c))"

text \<open>
  The sweep of the next \<open>k\<close> headers as the spec words it: "for each meta: if
  \<open>Unmarked\<close>, erase from the set, invoke its destructor thunk, free its block; else
  reset to \<open>Unmarked\<close> and advance". The unmarked ones leave the set and the memory and
  their deletions are logged in the order of the visit; the others stay with their mark
  reset, and the cursor stands behind the last of them.
\<close>

definition swept :: "nat \<Rightarrow> Collector \<Rightarrow> Collector" where
  "swept k c =
     (let i = nextSweeping c;
          dead = filter (is_unmarked c) (sweep_visited k c);
          kept = filter (\<lambda>m. \<not> is_unmarked c m) (sweep_visited k c)
      in c\<lparr>metaSet := take i (metaSet c) @ kept @ drop (i + k) (metaSet c),
           nextSweeping := i + length kept,
           metas := (\<lambda>m. if m \<in> set dead then None
                         else if m \<in> set kept
                           then map_option (\<lambda>x. x\<lparr>markState := Unmarked\<rparr>) (metas c m)
                         else metas c m),
           dctorLog := dctorLog c @ concat (map (\<lambda>m. [Dctor m, Free m]) dead)\<rparr>)"

text \<open>
  The chain when marking has ended: the two reachable nodes are \<open>Alive\<close>, the unreachable
  one is \<open>Unmarked\<close>, and the sweep is about to begin.
\<close>

definition heap_chain_sweeping :: Collector where
  "heap_chain_sweeping = heap_chain
     \<lparr>metas := (metas heap_chain)
        (1000 \<mapsto> \<lparr>clsInfo = 0, markState = Alive, arrayLength = 1, objPtr = 1008\<rparr>,
         2000 \<mapsto> \<lparr>clsInfo = 0, markState = Alive, arrayLength = 1, objPtr = 2008\<rparr>),
      state := Sweeping\<rparr>"

text \<open>
  The order of the \<open>MetaSet\<close> is strict on its elements: no header is less than itself,
  which is to say that every payload range has at least one byte.
\<close>

definition metaSet_strict :: "Collector \<Rightarrow> bool" where
  "metaSet_strict c \<longleftrightarrow> metaSet_ok c \<and> (\<forall>m \<in> set (metaSet c). \<not> meta_lt c m m)"

text \<open>
  The chain at the start of the sweep, after the mutator has stored the unreachable
  third node in the root handle (and not yet called the write barrier).
\<close>

definition heap_chain_rescue :: Collector where
  "heap_chain_rescue = set_meta 10 (Some 3000) heap_chain_sweeping"

text \<open>The chain after the sweep has visited the first node.\<close>

definition heap_chain_swept1 :: Collector where
  "heap_chain_swept1 = (set_markState 1000 Unmarked heap_chain_sweeping)\<lparr>nextSweeping := 1\<rparr>"

text \<open>The header at \<open>m\<close> is allocated and its mark is \<open>k\<close>.\<close>

definition has_mark :: "Collector \<Rightarrow> MarkColor \<Rightarrow> addr \<Rightarrow> bool" where
  "has_mark c k m \<longleftrightarrow> map_option markState (metas c m) = Some k"

text \<open>
  The objects that the object at \<open>m\<close> references through its registered sub-pointers:
  the \<open>meta\<close> of every sub-handle at an offset of its class that is not null.
\<close>

definition children :: "Collector \<Rightarrow> addr \<Rightarrow> addr list" where
  "children c m =
     (case metas c m of
        None \<Rightarrow> []
      | Some x \<Rightarrow>
          List.map_filter (\<lambda>a. case ptrs c a of None \<Rightarrow> None | Some h \<Rightarrow> meta h)
            (enumPtrs (classes c) x))"

text \<open>
  The tri-color invariant of the spec: no \<open>Alive\<close> object references an \<open>Unmarked\<close>
  object, and the work list holds exactly the \<open>Gray\<close> objects.
\<close>

definition tricolour :: "Collector \<Rightarrow> bool" where
  "tricolour c \<longleftrightarrow>
     (\<forall>a \<in> set (metaSet c). has_mark c Alive a \<longrightarrow>
        (\<forall>b \<in> set (children c a). \<not> has_mark c Unmarked b)) \<and>
     set (grayObjs c) = {m \<in> set (metaSet c). has_mark c Gray m}"

section \<open>The handle layer and the collector of gcptr.h and gcptr.cpp\<close>

text \<open>
  The names of gcptr.cpp that tgc.cpp uses too carry the prefix \<open>GC\<close> or the suffix
  \<open>_g\<close>. \<open>MarkColor\<close> of gcptr.cpp is \<open>White\<close>, \<open>Gray\<close>, \<open>Black\<close>.
\<close>

datatype Color = White | Gray_g | Black

datatype GC_State = GC_Idle | GC_Marking | GC_Sweeping

text \<open>
  \<open>struct ClassInfo\<close> of gcptr.h: whether the destructor thunk \<open>dctor\<close> is set, the
  size and the offsets of the member pointers.
\<close>

record ClassInfo_g =
  dctor :: bool
  size_g :: int
  memPtrOffsets :: "int list"

record ObjInfo =
  obj :: addr
  clsInfo_g :: nat
  color :: Color

text \<open>
  \<open>PointerBase::owner\<close> is \<open>kInvalidObjInfo\<close> (the pointer value -1) until the owner
  has been looked up, and then null or the owner's \<open>ObjInfo\<close>.
\<close>

datatype owner_ptr = kInvalidObjInfo | Owner "addr option"

text \<open>\<open>gc_ptr<T>\<close>: the two fields of \<open>PointerBase\<close> and the raw pointer \<open>ptr\<close>.\<close>

record gc_ptr =
  owner :: owner_ptr
  objInfo :: "addr option"
  ptr :: "addr option"

text \<open>
  \<open>struct GC\<close>, preceded by the memory it works on. The \<open>unordered_set\<close> of handles
  is listed in its iteration order, \<open>objInfoSet\<close> in the order of \<open>ObjInfo::Less\<close>.
\<close>

record GC =
  handles :: "addr \<rightharpoonup> gc_ptr"
  objInfos :: "addr \<rightharpoonup> ObjInfo"
  classInfos :: "nat \<Rightarrow> ClassInfo_g"
  gc_pointers :: "addr list"
  objInfoSet :: "addr list"
  gc_grayObjs :: "addr list"
  gc_state :: GC_State

text \<open>\<open>ObjInfo::Less\<close> and \<open>ObjInfo::containsPointer\<close>.\<close>

definition ObjInfo_Less :: "(nat \<Rightarrow> ClassInfo_g) \<Rightarrow> ObjInfo \<Rightarrow> ObjInfo \<Rightarrow> bool" where
  "ObjInfo_Less cs x y \<longleftrightarrow> int (obj x) + size_g (cs (clsInfo_g x)) \<le> int (obj y)"

definition containsPointer :: "(nat \<Rightarrow> ClassInfo_g) \<Rightarrow> ObjInfo \<Rightarrow> addr \<Rightarrow> bool" where
  "containsPointer cs x p \<longleftrightarrow> obj x \<le> p \<and> int p < int (obj x) + size_g (cs (clsInfo_g x))"

text \<open>
  \<open>GC::findOwnerObjInfo\<close>: the lower bound of a temporary \<open>ObjInfo\<close> at \<open>obj\<close>, whose
  class has size 0, followed by the containment test.
\<close>

fun lower_bound_g :: "GC \<Rightarrow> ObjInfo \<Rightarrow> addr list \<Rightarrow> addr option option" where
  "lower_bound_g g key [] = Some None"
| "lower_bound_g g key (i # is) =
     (case objInfos g i of
        None \<Rightarrow> None
      | Some x \<Rightarrow>
          if ObjInfo_Less (classInfos g) x key then lower_bound_g g key is else Some (Some i))"

definition findOwnerObjInfo :: "GC \<Rightarrow> addr \<Rightarrow> addr option option" where
  "findOwnerObjInfo g p =
     (case lower_bound_g g \<lparr>obj = p, clsInfo_g = 0, color = White\<rparr> (objInfoSet g) of
        None \<Rightarrow> None
      | Some None \<Rightarrow> Some None
      | Some (Some i) \<Rightarrow>
          (case objInfos g i of
             None \<Rightarrow> None
           | Some x \<Rightarrow> if \<not> containsPointer (classInfos g) x p then Some None else Some (Some i)))"

text \<open>
  \<open>GC::isRoot\<close>: the first call for a handle looks its owner up, stores it, and records
  the handle's offset in the owner's class unless it is there. The result is the new
  state and the answer.
\<close>

definition GC_isRoot :: "addr \<Rightarrow> GC \<Rightarrow> (GC \<times> bool) option" where
  "GC_isRoot p g =
     (case handles g p of
        None \<Rightarrow> None
      | Some h \<Rightarrow>
          if owner h = kInvalidObjInfo then
            (case findOwnerObjInfo g p of
               None \<Rightarrow> None
             | Some ow \<Rightarrow>
                 let g1 = g\<lparr>handles := (handles g)(p \<mapsto> h\<lparr>owner := Owner ow\<rparr>)\<rparr> in
                 (case ow of
                    None \<Rightarrow> Some (g1, True)
                  | Some i \<Rightarrow>
                      (case objInfos g1 i of
                         None \<Rightarrow> None
                       | Some x \<Rightarrow>
                           let offset = int p - int (obj x);
                               offsets = memPtrOffsets (classInfos g1 (clsInfo_g x)) in
                           if offset \<in> set offsets then Some (g1, False)
                           else Some (g1\<lparr>classInfos := (classInfos g1)
                                  (clsInfo_g x := (classInfos g1 (clsInfo_g x))
                                     \<lparr>memPtrOffsets := offsets @ [offset]\<rparr>)\<rparr>, False))))
          else Some (g, owner h = Owner None))"

definition markAsRoot :: "addr \<Rightarrow> GC \<Rightarrow> GC option" where
  "markAsRoot p g =
     (case handles g p of
        None \<Rightarrow> None
      | Some h \<Rightarrow>
          (case objInfo h of
             None \<Rightarrow> Some g
           | Some i \<Rightarrow>
               (case GC_isRoot p g of
                  None \<Rightarrow> None
                | Some (g1, root) \<Rightarrow>
                    if root then
                      (case objInfos g1 i of
                         None \<Rightarrow> None
                       | Some x \<Rightarrow>
                           if color x = White
                           then Some (g1\<lparr>objInfos := (objInfos g1)(i \<mapsto> x\<lparr>color := Gray_g\<rparr>),
                                         gc_grayObjs := gc_grayObjs g1 @ [i]\<rparr>)
                           else Some g1)
                    else Some g1)))"

definition onPointerUpdate :: "addr \<Rightarrow> GC \<Rightarrow> GC option" where
  "onPointerUpdate p g = (if gc_state g = GC_Marking then markAsRoot p g else Some g)"

text \<open>\<open>gc_ptr::reset(T* o, ObjInfo* n)\<close>: both fields are stored, then the barrier runs.\<close>

definition reset :: "addr \<Rightarrow> addr option \<Rightarrow> addr option \<Rightarrow> GC \<Rightarrow> GC option" where
  "reset this ob n g =
     (case handles g this of
        None \<Rightarrow> None
      | Some h \<Rightarrow> onPointerUpdate this (g\<lparr>handles := (handles g)(this \<mapsto> h\<lparr>ptr := ob, objInfo := n\<rparr>)\<rparr>))"

text \<open>
  \<open>gc_ptr& operator=(gc_ptr&& r) { reset(r.ptr, r.objInfo); r.objInfo = 0; return *this; }\<close>
\<close>

definition move_assign :: "addr \<Rightarrow> addr \<Rightarrow> GC \<Rightarrow> GC option" where
  "move_assign this r g =
     (case handles g r of
        None \<Rightarrow> None
      | Some hr \<Rightarrow>
          (case reset this (ptr hr) (objInfo hr) g of
             None \<Rightarrow> None
           | Some g1 \<Rightarrow>
               (case handles g1 r of
                  None \<Rightarrow> None
                | Some hr1 \<Rightarrow> Some (g1\<lparr>handles := (handles g1)(r \<mapsto> hr1\<lparr>objInfo := None\<rparr>)\<rparr>))))"

text \<open>\<open>explicit operator bool() const { return ptr != 0; }\<close>\<close>

definition operator_bool :: "gc_ptr \<Rightarrow> bool" where
  "operator_bool h \<longleftrightarrow> ptr h \<noteq> None"

text \<open>\<open>bool operator==(const gc_ptr& r) const { return objInfo == r.objInfo; }\<close>\<close>

definition operator_eq :: "gc_ptr \<Rightarrow> gc_ptr \<Rightarrow> bool" where
  "operator_eq h r \<longleftrightarrow> objInfo h = objInfo r"

text \<open>A handle as the default constructor \<open>gc_ptr()\<close> leaves it: it holds nothing.\<close>

definition null_gc_ptr :: gc_ptr where
  "null_gc_ptr = \<lparr>owner = kInvalidObjInfo, objInfo = None, ptr = None\<rparr>"

text \<open>
  One object of 16 bytes at 5008 with its \<open>ObjInfo\<close> at 5000, a handle at 20 that points to
  it and an empty handle at 10; the collector is idle.
\<close>

definition gc_two_handles :: GC where
  "gc_two_handles =
     \<lparr>handles = [10 \<mapsto> null_gc_ptr,
                 20 \<mapsto> \<lparr>owner = kInvalidObjInfo, objInfo = Some 5000, ptr = Some 5008\<rparr>],
      objInfos = [5000 \<mapsto> \<lparr>obj = 5008, clsInfo_g = 0, color = White\<rparr>],
      classInfos = (\<lambda>k. \<lparr>dctor = True, size_g = 16, memPtrOffsets = []\<rparr>),
      gc_pointers = [10, 20], objInfoSet = [5000], gc_grayObjs = [], gc_state = GC_Idle\<rparr>"











text \<open>
  The chain when the sweep has visited and reset the two reachable nodes and stands
  before the unreachable third.
\<close>

definition heap_chain_last_sweep :: Collector where
  "heap_chain_last_sweep = heap_chain\<lparr>nextSweeping := 2, state := Sweeping\<rparr>"

text \<open>The chain after the next step: the third node is gone and a new cycle begins.\<close>

definition heap_chain_cycled :: Collector where
  "heap_chain_cycled =
     (delete_meta 3000 (heap_chain_last_sweep\<lparr>metaSet := [1000, 2000]\<rparr>))\<lparr>state := RootMarking\<rparr>"

text \<open>
  What the ChildMarking loop keeps of the invariant: every \<open>Unmarked\<close> object that an
  \<open>Alive\<close> object references is in the work list, and so is every \<open>Gray\<close> object.
\<close>

definition weak_tricolour :: "Collector \<Rightarrow> bool" where
  "weak_tricolour c \<longleftrightarrow>
     (\<forall>a b. has_mark c Alive a \<and> b \<in> set (children c a) \<and> has_mark c Unmarked b
        \<longrightarrow> b \<in> set (grayObjs c)) \<and>
     (\<forall>m. has_mark c Gray m \<longrightarrow> m \<in> set (grayObjs c))"

text \<open>
  The collector when the destructor of a swept object runs. Line 210 of tgc.cpp,
  \<open>nextSweeping = metaSet.erase(nextSweeping)\<close>, has erased the header at the cursor and
  the cursor stands on the following element, or at \<open>end()\<close> when the erased header
  was the last; \<open>delete meta\<close> of line 211 has not returned, the header is still
  allocated and \<open>state\<close> is still Sweeping.
\<close>

definition erase_at_cursor :: "Collector \<Rightarrow> Collector" where
  "erase_at_cursor c =
     c\<lparr>metaSet := take (nextSweeping c) (metaSet c) @ drop (Suc (nextSweeping c)) (metaSet c)\<rparr>"

text \<open>
  One iteration of the Sweeping loop with the body of the user destructor made explicit:
  \<open>d m\<close> is what the destructor of the object of header \<open>m\<close> does to the collector
  (handle writes call \<open>onPointeeChanged\<close> through \<open>PtrBase::onPtrChanged\<close>). It runs
  inside \<open>delete meta\<close>, after the erasure and before the block is freed. A fault of
  the destructor is a fault of the step.
\<close>

definition sweepStep_dtor :: "(addr \<Rightarrow> Collector \<Rightarrow> Collector option) \<Rightarrow> Collector \<Rightarrow> Collector option" where
  "sweepStep_dtor d c =
     (let i = nextSweeping c; m = metaSet c ! i in
      case metas c m of
        None \<Rightarrow> None
      | Some x \<Rightarrow>
          if markState x = Unmarked
          then (case d m (erase_at_cursor c) of
                  None \<Rightarrow> None
                | Some c1 \<Rightarrow> Some (delete_meta m c1))
          else Some ((set_markState m Unmarked c)\<lparr>nextSweeping := i + 1\<rparr>))"

section \<open>Sub-pointer offsets grow monotonically\<close>

lemma registerSubPtr_regState: "regState (registerSubPtr cls payload p) = regState cls"
  by (simp add: registerSubPtr_def Let_def)

lemma registerSubPtr_frozen:
  "regState cls = Registered \<Longrightarrow> registerSubPtr cls payload p = cls"
  by (simp add: registerSubPtr_def)

lemma registerSubPtr_append:
  "subPtrOffsets (registerSubPtr cls payload p) = subPtrOffsets cls \<or>
   (\<exists>x. subPtrOffsets (registerSubPtr cls payload p) = subPtrOffsets cls @ [x])"
  by (simp add: registerSubPtr_def Let_def)

lemma sint_uint_cases:
  fixes x :: "16 word"
  shows "sint x = uint x \<or> sint x = uint x - 65536"
  by (simp add: sint_uint signed_take_bit_eq_take_bit_minus take_bit_int_eq_self_iff
      uint_lt2p [of x, simplified] unsigned_take_bit_eq)

lemma sint_above_uint:
  fixes x y :: "16 word"
  assumes "\<not> sint x \<le> uint y"
  shows "uint y < uint x"
proof -
  have "0 \<le> uint y" by simp
  with assms have pos: "0 \<le> sint x" by linarith
  have "uint x < 65536" using uint_lt2p [of x] by simp
  with pos sint_uint_cases [of x] have "sint x = uint x" by linarith
  with assms show ?thesis by simp
qed

lemma strictly_increasing_snoc:
  "strictly_increasing (offs @ [x]) \<longleftrightarrow>
     strictly_increasing offs \<and> (\<forall>y \<in> set offs. uint y < uint x)"
  by (auto simp: strictly_increasing_def sorted_wrt_append)

lemma strictly_increasing_last:
  assumes "strictly_increasing offs" "offs \<noteq> []" "y \<in> set offs"
  shows "uint y \<le> uint (last offs)"
proof -
  from assms(2) obtain bs b where offs: "offs = bs @ [b]"
    by (metis append_butlast_last_id)
  with assms show ?thesis
    by (auto simp: strictly_increasing_snoc)
qed

lemma registerSubPtr_increasing:
  assumes "strictly_increasing (subPtrOffsets cls)"
  shows "strictly_increasing (subPtrOffsets (registerSubPtr cls payload p))"
proof (cases "regState cls = Registered \<or>
    (subPtrOffsets cls \<noteq> [] \<and>
      sint (word_of_int (int p - int payload) :: 16 word) \<le> uint (last (subPtrOffsets cls)))")
  case True
  then show ?thesis using assms by (auto simp: registerSubPtr_def Let_def)
next
  case False
  let ?x = "word_of_int (int p - int payload) :: 16 word"
  have "\<forall>y \<in> set (subPtrOffsets cls). uint y < uint ?x"
  proof
    fix y assume y: "y \<in> set (subPtrOffsets cls)"
    then have ne: "subPtrOffsets cls \<noteq> []" by auto
    with False have "\<not> sint ?x \<le> uint (last (subPtrOffsets cls))" by simp
    then have "uint (last (subPtrOffsets cls)) < uint ?x" by (rule sint_above_uint)
    moreover have "uint y \<le> uint (last (subPtrOffsets cls))"
      using assms ne y by (rule strictly_increasing_last)
    ultimately show "uint y < uint ?x" by simp
  qed
  with False assms show ?thesis
    by (simp add: registerSubPtr_def Let_def strictly_increasing_snoc)
qed

lemma registerSubPtrs_increasing:
  "strictly_increasing (subPtrOffsets cls) \<Longrightarrow>
   strictly_increasing (subPtrOffsets (registerSubPtrs cls calls))"
  by (induction cls calls rule: registerSubPtrs.induct) (auto intro: registerSubPtr_increasing)

lemma registerSubPtr_prefix:
  "prefix (subPtrOffsets cls) (subPtrOffsets (registerSubPtr cls payload p))"
  using registerSubPtr_append [of cls payload p] by (auto simp: prefix_def)

lemma registerSubPtrs_prefix:
  "prefix (subPtrOffsets cls) (subPtrOffsets (registerSubPtrs cls calls))"
proof (induction cls calls rule: registerSubPtrs.induct)
  case (1 cls)
  show ?case by simp
next
  case (2 cls payload p calls)
  have "prefix (subPtrOffsets cls) (subPtrOffsets (registerSubPtr cls payload p))"
    by (rule registerSubPtr_prefix)
  with 2 show ?case by (auto intro: prefix_order.order_trans)
qed

lemma registerSubPtrs_frozen:
  "regState cls = Registered \<Longrightarrow> registerSubPtrs cls calls = cls"
  by (induction cls calls rule: registerSubPtrs.induct) (auto simp: registerSubPtr_frozen)

text \<open>
  C8. Starting from a strictly increasing sequence of offsets (the empty sequence of
  a fresh \<open>ClassInfo\<close> is one), any series of calls to \<open>registerSubPtr\<close> leaves the
  sequence strictly increasing and only appends to it (the old sequence is a prefix of
  the new one); a single call appends the new offset only when the sequence is empty or
  the offset exceeds the last element; and when the class is \<open>Registered\<close> the calls
  change nothing.
\<close>

theorem registerSubPtr_monotone:
  "(strictly_increasing (subPtrOffsets cls) \<longrightarrow>
      strictly_increasing (subPtrOffsets (registerSubPtrs cls calls))) \<and>
   prefix (subPtrOffsets cls) (subPtrOffsets (registerSubPtrs cls calls)) \<and>
   (subPtrOffsets (registerSubPtr cls payload p) \<noteq> subPtrOffsets cls \<longrightarrow>
      subPtrOffsets (registerSubPtr cls payload p)
        = subPtrOffsets cls @ [word_of_int (int p - int payload)] \<and>
      (subPtrOffsets cls = [] \<or>
       uint (last (subPtrOffsets cls)) < uint (word_of_int (int p - int payload) :: 16 word))) \<and>
   (regState cls = Registered \<longrightarrow> registerSubPtrs cls calls = cls)"
proof (intro conjI impI)
  assume "strictly_increasing (subPtrOffsets cls)"
  then show "strictly_increasing (subPtrOffsets (registerSubPtrs cls calls))"
    by (rule registerSubPtrs_increasing)
next
  show "prefix (subPtrOffsets cls) (subPtrOffsets (registerSubPtrs cls calls))"
    by (rule registerSubPtrs_prefix)
next
  assume "subPtrOffsets (registerSubPtr cls payload p) \<noteq> subPtrOffsets cls"
  then show "subPtrOffsets (registerSubPtr cls payload p)
      = subPtrOffsets cls @ [word_of_int (int p - int payload)]"
    by (auto simp: registerSubPtr_def Let_def split: if_splits)
next
  assume ch: "subPtrOffsets (registerSubPtr cls payload p) \<noteq> subPtrOffsets cls"
  show "subPtrOffsets cls = [] \<or>
       uint (last (subPtrOffsets cls)) < uint (word_of_int (int p - int payload) :: 16 word)"
  proof (cases "subPtrOffsets cls = []")
    case True
    then show ?thesis by simp
  next
    case False
    with ch have "\<not> sint (word_of_int (int p - int payload) :: 16 word)
        \<le> uint (last (subPtrOffsets cls))"
      by (auto simp: registerSubPtr_def Let_def split: if_splits)
    then show ?thesis by (auto dest: sint_above_uint)
  qed
next
  assume "regState cls = Registered"
  then show "registerSubPtrs cls calls = cls" by (rule registerSubPtrs_frozen)
qed

theorem registerSubPtr_monotone_witness:
  "strictly_increasing (subPtrOffsets \<lparr>size_bytes = 24, subPtrOffsets = [], regState = Registering\<rparr>) \<and>
   strictly_increasing (subPtrOffsets (registerSubPtrs
      \<lparr>size_bytes = 24, subPtrOffsets = [], regState = Registering\<rparr>
      [(100, 108), (100, 116), (100, 108)])) \<and>
   subPtrOffsets (registerSubPtrs
      \<lparr>size_bytes = 24, subPtrOffsets = [], regState = Registering\<rparr>
      [(100, 108), (100, 116), (100, 108)]) = [8, 16] \<and>
   subPtrOffsets (registerSubPtr \<lparr>size_bytes = 24, subPtrOffsets = [8], regState = Registering\<rparr> 100 116)
     \<noteq> [8] \<and>
   subPtrOffsets (registerSubPtr \<lparr>size_bytes = 24, subPtrOffsets = [8], regState = Registering\<rparr> 100 116)
     = [8, 16] \<and>
   regState \<lparr>size_bytes = 24, subPtrOffsets = [8, 16], regState = Registered\<rparr> = Registered \<and>
   registerSubPtrs \<lparr>size_bytes = 24, subPtrOffsets = [8, 16], regState = Registered\<rparr> [(100, 124)]
     = \<lparr>size_bytes = 24, subPtrOffsets = [8, 16], regState = Registered\<rparr>"
  using registerSubPtr_monotone [of "\<lparr>size_bytes = 24, subPtrOffsets = [], regState = Registering\<rparr>"
      "[(100, 108), (100, 116), (100, 108)]" 100 108]
    registerSubPtr_monotone [of "\<lparr>size_bytes = 24, subPtrOffsets = [8], regState = Registering\<rparr>"
      "[]" 100 116]
    registerSubPtr_monotone [of "\<lparr>size_bytes = 24, subPtrOffsets = [8, 16], regState = Registered\<rparr>"
      "[(100, 124)]" 100 124]
  by (simp add: registerSubPtr_def strictly_increasing_def)

section \<open>Owner lookup\<close>

lemma lower_bound_owner:
  assumes "m \<in> set ms" "owns c m p" "set ms \<subseteq> dom (metas c)" "sorted_wrt (meta_lt c) ms"
  shows "lower_bound c (DummyMetaInfo p) ms = Some (Some m)"
  using assms
proof (induction ms)
  case Nil
  then show ?case by simp
next
  case (Cons a as)
  from Cons.prems(3) obtain x where x: "metas c a = Some x" by auto
  show ?case
  proof (cases "a = m")
    case True
    with Cons.prems(2) x show ?thesis
      by (simp add: owns_def containsPtr_def ObjMeta_less_def DummyMetaInfo_def)
  next
    case False
    with Cons.prems(1) have m: "m \<in> set as" by simp
    with Cons.prems(4) have "meta_lt c a m" by simp
    with Cons.prems(2) x have "ObjMeta_less (classes c) x (DummyMetaInfo p)"
      by (auto simp: meta_lt_def owns_def containsPtr_def ObjMeta_less_def DummyMetaInfo_def
          split: option.splits)
    moreover have "lower_bound c (DummyMetaInfo p) as = Some (Some m)"
      using Cons.IH [OF m Cons.prems(2)] Cons.prems(3,4) by simp
    ultimately show ?thesis using x by simp
  qed
qed

lemma lower_bound_member:
  "lower_bound c key ms = Some (Some i) \<Longrightarrow> i \<in> set ms \<and> i \<in> dom (metas c)"
  by (induction ms) (auto split: option.splits if_splits)

lemma lower_bound_no_fault:
  "set ms \<subseteq> dom (metas c) \<Longrightarrow> lower_bound c key ms \<noteq> None"
  by (induction ms) (auto split: option.splits)

lemma findOwnerMeta_owner:
  assumes "metaSet_ok c" "m \<in> set (metaSet c)" "owns c m p"
  shows "findOwnerMeta c p = Some (Some m)"
proof -
  have "lower_bound c (DummyMetaInfo p) (metaSet c) = Some (Some m)"
    using assms by (auto simp: metaSet_ok_def intro: lower_bound_owner)
  with assms(3) show ?thesis
    by (auto simp: findOwnerMeta_def owns_def split: option.splits)
qed

lemma findOwnerMeta_none:
  assumes "metaSet_ok c" "\<forall>m \<in> set (metaSet c). \<not> owns c m p"
  shows "findOwnerMeta c p = Some None"
proof (cases "lower_bound c (DummyMetaInfo p) (metaSet c)")
  case None
  with assms(1) show ?thesis
    using lower_bound_no_fault [of "metaSet c" c "DummyMetaInfo p"] by (simp add: metaSet_ok_def)
next
  case (Some r)
  show ?thesis
  proof (cases r)
    case None
    with Some show ?thesis by (simp add: findOwnerMeta_def)
  next
    case (Some i)
    with \<open>lower_bound c (DummyMetaInfo p) (metaSet c) = Some r\<close>
    have lb: "lower_bound c (DummyMetaInfo p) (metaSet c) = Some (Some i)" by simp
    then have "i \<in> set (metaSet c)" "i \<in> dom (metas c)"
      using lower_bound_member by blast+
    with assms(2) lb show ?thesis
      by (auto simp: findOwnerMeta_def owns_def)
  qed
qed

text \<open>
  C3. On a \<open>MetaSet\<close> whose payload ranges do not overlap, \<open>findOwnerMeta\<close> returns
  the object whose payload range contains the address when there is one, and that
  object is the only one; it returns null when no range contains the address, in
  particular when the lower bound is the end of the set. It never faults.
\<close>

theorem findOwnerMeta_correct:
  assumes "metaSet_ok c"
  shows "(\<forall>m \<in> set (metaSet c). owns c m p \<longrightarrow>
            findOwnerMeta c p = Some (Some m) \<and>
            (\<forall>m' \<in> set (metaSet c). owns c m' p \<longrightarrow> m' = m)) \<and>
         ((\<forall>m \<in> set (metaSet c). \<not> owns c m p) \<longrightarrow> findOwnerMeta c p = Some None) \<and>
         (lower_bound c (DummyMetaInfo p) (metaSet c) = Some None \<longrightarrow>
            findOwnerMeta c p = Some None)"
proof (intro conjI ballI impI)
  fix m assume "m \<in> set (metaSet c)" "owns c m p"
  with assms show "findOwnerMeta c p = Some (Some m)" by (rule findOwnerMeta_owner)
next
  fix m m' assume "m \<in> set (metaSet c)" "owns c m p" "m' \<in> set (metaSet c)" "owns c m' p"
  with assms have "findOwnerMeta c p = Some (Some m)" "findOwnerMeta c p = Some (Some m')"
    by (auto intro: findOwnerMeta_owner)
  then show "m' = m" by simp
next
  assume "\<forall>m \<in> set (metaSet c). \<not> owns c m p"
  with assms show "findOwnerMeta c p = Some None" by (rule findOwnerMeta_none)
next
  assume "lower_bound c (DummyMetaInfo p) (metaSet c) = Some None"
  then show "findOwnerMeta c p = Some None" by (simp add: findOwnerMeta_def)
qed

theorem findOwnerMeta_correct_witness:
  "metaSet_ok heap2 \<and> 2000 \<in> set (metaSet heap2) \<and> owns heap2 2000 2010 \<and>
   findOwnerMeta heap2 2010 = Some (Some 2000) \<and>
   \<not> owns heap2 1000 1030 \<and> \<not> owns heap2 2000 1030 \<and>
   findOwnerMeta heap2 1030 = Some None \<and>
   lower_bound heap2 (DummyMetaInfo 3000) (metaSet heap2) = Some None \<and>
   findOwnerMeta heap2 3000 = Some None"
proof -
  have ok: "metaSet_ok heap2"
    by (simp add: heap2_def metaSet_ok_def meta_lt_def ObjMeta_less_def Collector_init_def cs16_def)
  have own: "2000 \<in> set (metaSet heap2)" "owns heap2 2000 2010"
    by (simp_all add: heap2_def owns_def containsPtr_def Collector_init_def cs16_def)
  have none: "\<forall>m \<in> set (metaSet heap2). \<not> owns heap2 m 1030"
    by (simp add: heap2_def owns_def containsPtr_def Collector_init_def cs16_def)
  have lb: "lower_bound heap2 (DummyMetaInfo 3000) (metaSet heap2) = Some None"
    by (simp add: heap2_def ObjMeta_less_def DummyMetaInfo_def Collector_init_def cs16_def)
  note th = findOwnerMeta_correct [OF ok]
  have "findOwnerMeta heap2 2010 = Some (Some 2000)"
    using th [of 2010] own by blast
  moreover have "findOwnerMeta heap2 1030 = Some None"
    using th [of 1030] none by blast
  moreover have "findOwnerMeta heap2 3000 = Some None"
    using th [of 3000] lb by blast
  moreover have "\<not> owns heap2 1000 1030" "\<not> owns heap2 2000 1030"
    using none by (simp_all add: heap2_def Collector_init_def cs16_def)
  ultimately show ?thesis using ok own lb by simp
qed

section \<open>The registry index invariant\<close>







lemma unregisterPtr_last:
  "pointers c \<noteq> [] \<Longrightarrow> unregisterPtr (last (pointers c)) c = Some (c\<lparr>pointers := butlast (pointers c)\<rparr>)"
  by (simp add: unregisterPtr_def)



lemma collect_preserves:
  assumes "collect n c = Some c'" "P c"
    and root: "\<And>c c1. P c \<Longrightarrow> state c = RootMarking \<Longrightarrow>
        nextRootMarking c < length (pointers c) \<Longrightarrow> rootMarkStep c = Some c1 \<Longrightarrow> P c1"
    and root_exit: "\<And>c. P c \<Longrightarrow> state c = RootMarking \<Longrightarrow>
        \<not> nextRootMarking c < length (pointers c) \<Longrightarrow>
        P (c\<lparr>state := ChildMarking, nextRootMarking := 0\<rparr>)"
    and child: "\<And>c c1 k. P c \<Longrightarrow> state c = ChildMarking \<Longrightarrow> grayObjs c \<noteq> [] \<Longrightarrow>
        childMarkStep c = Some (c1, k) \<Longrightarrow> P c1"
    and child_exit: "\<And>c. P c \<Longrightarrow> state c = ChildMarking \<Longrightarrow> grayObjs c = [] \<Longrightarrow>
        P (c\<lparr>state := Sweeping, nextSweeping := 0\<rparr>)"
    and sweep: "\<And>c c1. P c \<Longrightarrow> state c = Sweeping \<Longrightarrow>
        nextSweeping c < length (metaSet c) \<Longrightarrow> sweepStep c = Some c1 \<Longrightarrow> P c1"
    and sweep_exit: "\<And>c. P c \<Longrightarrow> state c = Sweeping \<Longrightarrow>
        \<not> nextSweeping c < length (metaSet c) \<Longrightarrow> P (c\<lparr>state := RootMarking\<rparr>)"
  shows "P c'"
  using assms(1,2)
proof (induction n c rule: collect.induct)
  case (1 n c)
  note eq = "1.prems"(1) [unfolded collect.simps [of n c]]
  show ?case
  proof (cases "state c")
    case RootMarking
    show ?thesis
    proof (cases "nextRootMarking c < length (pointers c)")
      case True
      show ?thesis
      proof (cases "n > 0")
        case pos: True
        with eq RootMarking True obtain c1 where
          c1: "rootMarkStep c = Some c1" "collect (n - 1) c1 = Some c'"
          by (auto split: option.splits)
        have "P c1" using "1.prems"(2) RootMarking True c1(1) by (rule root)
        with "1.IH"(1) [OF RootMarking True pos c1(1) c1(2)] show ?thesis .
      next
        case False
        with eq RootMarking True "1.prems"(2) show ?thesis by simp
      qed
    next
      case False
      with eq RootMarking have
        "collect n (c\<lparr>state := ChildMarking, nextRootMarking := 0\<rparr>) = Some c'" by simp
      moreover have "P (c\<lparr>state := ChildMarking, nextRootMarking := 0\<rparr>)"
        using "1.prems"(2) RootMarking False by (rule root_exit)
      ultimately show ?thesis using "1.IH"(2) [OF RootMarking False] by blast
    qed
  next
    case ChildMarking
    show ?thesis
    proof (cases "grayObjs c \<noteq> []")
      case True
      show ?thesis
      proof (cases "n > 0")
        case pos: True
        with eq ChildMarking True obtain c1 k where
          c1: "childMarkStep c = Some (c1, k)" "collect (n - 1 - int k) c1 = Some c'"
          by (auto split: option.splits)
        have "P c1" using "1.prems"(2) ChildMarking True c1(1) by (rule child)
        with "1.IH"(3) [OF ChildMarking True pos c1(1) refl c1(2)] show ?thesis .
      next
        case False
        with eq ChildMarking True "1.prems"(2) show ?thesis by simp
      qed
    next
      case False
      with eq ChildMarking have
        "collect n (c\<lparr>state := Sweeping, nextSweeping := 0\<rparr>) = Some c'" by simp
      moreover have "P (c\<lparr>state := Sweeping, nextSweeping := 0\<rparr>)"
        using "1.prems"(2) ChildMarking False by (simp add: child_exit)
      ultimately show ?thesis using "1.IH"(4) [OF ChildMarking False] by blast
    qed
  next
    case Sweeping
    show ?thesis
    proof (cases "nextSweeping c < length (metaSet c)")
      case True
      show ?thesis
      proof (cases "n > 0")
        case pos: True
        with eq Sweeping True obtain c1 where
          c1: "sweepStep c = Some c1" "collect (n - 1) c1 = Some c'"
          by (auto split: option.splits)
        have "P c1" using "1.prems"(2) Sweeping True c1(1) by (rule sweep)
        with "1.IH"(5) [OF Sweeping True pos c1(1) c1(2)] show ?thesis .
      next
        case False
        with eq Sweeping True "1.prems"(2) show ?thesis by simp
      qed
    next
      case False
      have P': "P (c\<lparr>state := RootMarking\<rparr>)"
        using "1.prems"(2) Sweeping False by (rule sweep_exit)
      show ?thesis
      proof (cases "metaSet c \<noteq> []")
        case True
        with eq Sweeping False have "collect n (c\<lparr>state := RootMarking\<rparr>) = Some c'" by simp
        with "1.IH"(6) [OF Sweeping False True] P' show ?thesis by blast
      next
        case ms: False
        with eq Sweeping False P' show ?thesis by auto
      qed
    qed
  qed
qed














text \<open>The equations that evaluate the operations on a concrete state.\<close>

lemmas eval_simps = Collector_init_def PtrBase_ctor_def PtrBase_dtor_def registerPtr_def unregisterPtr_def
      set_index_def set_isRoot_def set_markState_def set_meta_def collect.simps rootMarkStep_def
      childMarkStep_def sweepStep_def onPointeeChanged_def tryMarkRoot_def Let_def
      findOwnerMeta_def enumPtrs_def delete_meta_def


section \<open>The work list during the sweep\<close>

lemma clearRoots_state:
  "clearRoots as c = Some c' \<Longrightarrow> state c' = state c \<and> grayObjs c' = grayObjs c"
proof (induction as arbitrary: c)
  case Nil
  then show ?case by simp
next
  case (Cons a as)
  then obtain h where "clearRoots as (set_isRoot a False c) = Some c'"
    by (auto split: option.splits)
  from Cons.IH [OF this] show ?case by (simp add: set_isRoot_def)
qed

lemma tryMarkRoot_state: "tryMarkRoot p c = Some c' \<Longrightarrow> state c' = state c"
  by (auto simp: tryMarkRoot_def set_markState_def split: option.splits if_splits)

lemma rootMarkStep_state: "rootMarkStep c = Some c' \<Longrightarrow> state c' = state c"
  by (auto simp: rootMarkStep_def Let_def split: option.splits
      dest!: clearRoots_state tryMarkRoot_state)

lemma scanChildren_state: "scanChildren as c = Some c' \<Longrightarrow> state c' = state c"
proof (induction as arbitrary: c)
  case Nil
  then show ?case by simp
next
  case (Cons a as)
  from Cons.prems have
    "scanChildren as c = Some c' \<or> (\<exists>m. scanChildren as (c\<lparr>grayObjs := grayObjs c @ [m]\<rparr>) = Some c')"
    by (auto split: option.splits if_splits)
  then show ?case using Cons.IH by fastforce
qed

lemma childMarkStep_state: "childMarkStep c = Some (c', k) \<Longrightarrow> state c' = state c"
  by (auto simp: childMarkStep_def Let_def set_markState_def split: option.splits
      dest!: scanChildren_state)

lemma sweepStep_state:
  "sweepStep c = Some c' \<Longrightarrow> state c' = state c \<and> grayObjs c' = grayObjs c"
  by (auto simp: sweepStep_def Let_def set_markState_def delete_meta_def
      split: option.splits if_splits)

lemma collect_sweeping_gray:
  assumes "collect n c = Some c'" "sweeping_gray_empty c"
  shows "sweeping_gray_empty c'"
  using assms
proof (rule collect_preserves [where P = sweeping_gray_empty])
  fix d d1 assume "state d = RootMarking" "rootMarkStep d = Some d1"
  then show "sweeping_gray_empty d1"
    by (auto simp: sweeping_gray_empty_def dest: rootMarkStep_state)
next
  fix d d1 k assume "state d = ChildMarking" "childMarkStep d = Some (d1, k)"
  then show "sweeping_gray_empty d1"
    by (auto simp: sweeping_gray_empty_def dest: childMarkStep_state)
next
  fix d d1 assume "sweeping_gray_empty d" "state d = Sweeping" "sweepStep d = Some d1"
  then show "sweeping_gray_empty d1"
    by (auto simp: sweeping_gray_empty_def dest: sweepStep_state)
qed (simp_all add: sweeping_gray_empty_def)

lemma onPointeeChanged_gray:
  "onPointeeChanged p c = Some c' \<Longrightarrow>
   state c' = state c \<and> (state c = Sweeping \<longrightarrow> grayObjs c' = grayObjs c)"
  by (auto simp: onPointeeChanged_def set_markState_def
      split: option.splits State.splits if_splits dest: tryMarkRoot_state)

lemma registerPtr_gray:
  "registerPtr p c = Some c' \<Longrightarrow> state c' = state c \<and> grayObjs c' = grayObjs c"
  by (auto simp: registerPtr_def Let_def set_index_def set_isRoot_def
      split: option.splits if_splits)

lemma unregisterPtr_gray:
  "unregisterPtr p c = Some c' \<Longrightarrow>
   state c' = state c \<and> (state c = Sweeping \<longrightarrow> grayObjs c' = grayObjs c)"
  by (auto simp: unregisterPtr_def Let_def set_index_def
      split: option.splits if_splits dest: tryMarkRoot_state)

lemma run_op_sweeping_gray:
  assumes "run_op x c = Some c'" "sweeping_gray_empty c"
  shows "sweeping_gray_empty c'"
proof (cases x)
  case (Construct p)
  with assms(1) have "state c' = state c \<and> grayObjs c' = grayObjs c"
    by (auto simp: PtrBase_ctor_def dest!: registerPtr_gray)
  with assms(2) show ?thesis by (simp add: sweeping_gray_empty_def)
next
  case (Destruct p)
  with assms(1) have "state c' = state c \<and> (state c = Sweeping \<longrightarrow> grayObjs c' = grayObjs c)"
    by (auto simp: PtrBase_dtor_def dest!: unregisterPtr_gray)
  with assms(2) show ?thesis by (simp add: sweeping_gray_empty_def)
next
  case (Collect n)
  with assms show ?thesis by (auto intro: collect_sweeping_gray)
next
  case (PointeeChanged p)
  with assms(1) have "state c' = state c \<and> (state c = Sweeping \<longrightarrow> grayObjs c' = grayObjs c)"
    by (auto dest!: onPointeeChanged_gray)
  with assms(2) show ?thesis by (simp add: sweeping_gray_empty_def)
qed

lemma run_ops_sweeping_gray:
  "run_ops ops c = Some c' \<Longrightarrow> sweeping_gray_empty c \<Longrightarrow> sweeping_gray_empty c'"
proof (induction ops arbitrary: c)
  case Nil
  then show ?case by simp
next
  case (Cons x xs)
  from Cons.prems(1) obtain c1 where c1: "run_op x c = Some c1" "run_ops xs c1 = Some c'"
    by (auto split: option.splits)
  from c1(1) Cons.prems(2) have "sweeping_gray_empty c1" by (rule run_op_sweeping_gray)
  with c1(2) show ?case by (rule Cons.IH)
qed

text \<open>
  C10. The collector starts with the property "in state Sweeping the work list is
  empty", and every sequence of collector steps, write barriers and handle constructions
  and destructions keeps it: a state that such a sequence reaches is not Sweeping or has
  an empty \<open>grayObjs\<close>. A call of \<open>collect\<close> that leaves a state other than Sweeping for
  Sweeping has emptied \<open>grayObjs\<close>, and \<open>onPointeeChanged\<close>, \<open>registerPtr\<close> and
  \<open>unregisterPtr\<close> called in state Sweeping leave the state and \<open>grayObjs\<close> as they are.
\<close>

theorem sweeping_keeps_gray_empty:
  "sweeping_gray_empty (Collector_init cs) \<and>
   (sweeping_gray_empty c \<and> run_ops ops c = Some c' \<and> state c' = Sweeping \<longrightarrow> grayObjs c' = []) \<and>
   (state c \<noteq> Sweeping \<and> collect n c = Some c' \<and> state c' = Sweeping \<longrightarrow> grayObjs c' = []) \<and>
   (state c = Sweeping \<and>
      (onPointeeChanged p c = Some c' \<or> registerPtr p c = Some c' \<or> unregisterPtr p c = Some c')
    \<longrightarrow> state c' = Sweeping \<and> grayObjs c' = grayObjs c)"
proof (intro conjI impI)
  show "sweeping_gray_empty (Collector_init cs)"
    by (simp add: sweeping_gray_empty_def Collector_init_def)
next
  assume "sweeping_gray_empty c \<and> run_ops ops c = Some c' \<and> state c' = Sweeping"
  then show "grayObjs c' = []"
    using run_ops_sweeping_gray [of ops c c'] by (simp add: sweeping_gray_empty_def)
next
  assume "state c \<noteq> Sweeping \<and> collect n c = Some c' \<and> state c' = Sweeping"
  then show "grayObjs c' = []"
    using collect_sweeping_gray [of n c c'] by (simp add: sweeping_gray_empty_def)
next
  assume a: "state c = Sweeping \<and>
      (onPointeeChanged p c = Some c' \<or> registerPtr p c = Some c' \<or> unregisterPtr p c = Some c')"
  then show "state c' = Sweeping"
    using onPointeeChanged_gray [of p c c'] registerPtr_gray [of p c c'] unregisterPtr_gray [of p c c']
    by auto
  from a show "grayObjs c' = grayObjs c"
    using onPointeeChanged_gray [of p c c'] registerPtr_gray [of p c c'] unregisterPtr_gray [of p c c']
    by auto
qed

theorem sweeping_keeps_gray_empty_witness:
  "\<exists>c1 c2. sweeping_gray_empty heap_chain \<and>
     run_ops [Collect 3, PointeeChanged 10, Collect 4] heap_chain = Some c1 \<and>
     state c1 = Sweeping \<and> grayObjs c1 = [] \<and>
     state heap_chain \<noteq> Sweeping \<and> collect 7 heap_chain = Some c1 \<and>
     onPointeeChanged 10 c1 = Some c2 \<and> state c2 = Sweeping \<and> grayObjs c2 = grayObjs c1"
proof -
  have inv: "sweeping_gray_empty heap_chain" "state heap_chain \<noteq> Sweeping"
    by (simp_all add: sweeping_gray_empty_def heap_chain_def Collector_init_def)
  define c1 where "c1 = the (collect 7 heap_chain)"
  define c2 where "c2 = the (onPointeeChanged 10 c1)"
  have c1: "collect 7 heap_chain = Some c1"
    unfolding c1_def by (simp add: heap_chain_def cs_node_def eval_simps)
  have run: "run_ops [Collect 3, PointeeChanged 10, Collect 4] heap_chain = Some c1"
    unfolding c1_def by (simp add: heap_chain_def cs_node_def eval_simps)
  have st: "state c1 = Sweeping"
    unfolding c1_def by (simp add: heap_chain_def cs_node_def eval_simps)
  have c2: "onPointeeChanged 10 c1 = Some c2"
    unfolding c2_def c1_def by (simp add: heap_chain_def cs_node_def eval_simps)
  note th = sweeping_keeps_gray_empty [of cs_node heap_chain "[Collect 3, PointeeChanged 10, Collect 4]" c1 7 10]
  have "grayObjs c1 = []" using th inv run st by blast
  moreover have "state c2 = Sweeping \<and> grayObjs c2 = grayObjs c1"
    using sweeping_keeps_gray_empty [of cs_node c1 "[]" c2 0 10] st c2 by blast
  ultimately show ?thesis using inv run st c1 c2 by blast
qed

section \<open>The ChildMarking work unit\<close>

lemma unmarked_children_Cons:
  "unmarked_children c (a # as) =
     (case ptrs c a of
        None \<Rightarrow> unmarked_children c as
      | Some h \<Rightarrow>
          (case meta h of
             None \<Rightarrow> unmarked_children c as
           | Some m \<Rightarrow>
               (case metas c m of
                  None \<Rightarrow> unmarked_children c as
                | Some x \<Rightarrow>
                    if markState x = Unmarked then m # unmarked_children c as
                    else unmarked_children c as)))"
  by (simp add: unmarked_children_def List.map_filter_simps split: option.splits)

lemma unmarked_children_grayObjs [simp]:
  "unmarked_children (c\<lparr>grayObjs := g\<rparr>) subs = unmarked_children c subs"
  by (simp add: unmarked_children_def cong: option.case_cong)

lemma subs_ok_grayObjs [simp]: "subs_ok (c\<lparr>grayObjs := g\<rparr>) subs = subs_ok c subs"
  by (simp add: subs_ok_def cong: option.case_cong)

lemma scanChildren_result:
  "subs_ok c subs \<Longrightarrow>
   scanChildren subs c = Some (c\<lparr>grayObjs := grayObjs c @ unmarked_children c subs\<rparr>)"
proof (induction subs arbitrary: c)
  case Nil
  then show ?case by (simp add: unmarked_children_def List.map_filter_simps)
next
  case (Cons a as)
  from Cons.prems have rest: "subs_ok c as" by (simp add: subs_ok_def)
  from Cons.prems obtain h where h: "ptrs c a = Some h"
    by (auto simp: subs_ok_def split: option.splits)
  show ?case
  proof (cases "meta h")
    case None
    with h Cons.IH [OF rest] show ?thesis by (simp add: unmarked_children_Cons)
  next
    case (Some m)
    with Cons.prems h obtain x where x: "metas c m = Some x"
      by (auto simp: subs_ok_def)
    show ?thesis
    proof (cases "markState x = Unmarked")
      case True
      have "subs_ok (c\<lparr>grayObjs := grayObjs c @ [m]\<rparr>) as" using rest by simp
      from Cons.IH [OF this] h Some x True show ?thesis
        by (simp add: unmarked_children_Cons)
    next
      case False
      with h Some x Cons.IH [OF rest] show ?thesis by (simp add: unmarked_children_Cons)
    qed
  qed
qed

lemma scanChildren_null:
  "ptrs c a = Some h \<Longrightarrow> meta h = None \<Longrightarrow> scanChildren (a # as) c = scanChildren as c"
  by simp

lemma childMarkStep_result:
  assumes "metas c (last (grayObjs c)) = Some x"
    and "subs_ok c (enumPtrs (classes c) x)"
  shows "childMarkStep c =
           Some (c\<lparr>grayObjs := butlast (grayObjs c) @
                     unmarked_children (set_markState (last (grayObjs c)) Alive c)
                       (enumPtrs (classes c) x),
                   metas := (metas c)(last (grayObjs c) \<mapsto> x\<lparr>markState := Alive\<rparr>)\<rparr>,
                 length (enumPtrs (classes c) x))"
proof -
  let ?ob = "last (grayObjs c)"
  let ?subs = "enumPtrs (classes c) x"
  let ?c1 = "c\<lparr>grayObjs := butlast (grayObjs c)\<rparr>"
  let ?c2 = "set_markState ?ob Alive ?c1"
  have ok2: "subs_ok ?c2 ?subs"
    using assms(2) by (auto simp: subs_ok_def set_markState_def split: option.splits)
  have uc: "unmarked_children ?c2 ?subs = unmarked_children (set_markState ?ob Alive c) ?subs"
    by (simp add: unmarked_children_def set_markState_def cong: option.case_cong)
  have step: "childMarkStep c =
      Some (?c2\<lparr>grayObjs := grayObjs ?c2 @ unmarked_children ?c2 ?subs\<rparr>, length ?subs)"
    using assms(1) scanChildren_result [OF ok2]
    by (simp add: childMarkStep_def Let_def set_markState_def)
  have res: "?c2\<lparr>grayObjs := grayObjs ?c2 @ unmarked_children ?c2 ?subs\<rparr>
      = c\<lparr>grayObjs := butlast (grayObjs c) @ unmarked_children (set_markState ?ob Alive c) ?subs,
          metas := (metas c)(?ob \<mapsto> x\<lparr>markState := Alive\<rparr>)\<rparr>"
    using assms(1) uc by (simp add: set_markState_def)
  from step res show ?thesis by simp
qed


lemma heap_chain_marking_reached: "collect 5 heap_chain = Some heap_chain_marking"
  by (simp add: heap_chain_marking_def heap_chain_def cs_node_def eval_simps fun_eq_iff)


section \<open>The sweep\<close>

lemma set_markState_fields [simp]:
  "ptrs (set_markState m k c) = ptrs c"
  "classes (set_markState m k c) = classes c"
  "isCreatingObj (set_markState m k c) = isCreatingObj c"
  "pointers (set_markState m k c) = pointers c"
  "grayObjs (set_markState m k c) = grayObjs c"
  "metaSet (set_markState m k c) = metaSet c"
  "nextSweeping (set_markState m k c) = nextSweeping c"
  "nextRootMarking (set_markState m k c) = nextRootMarking c"
  "state (set_markState m k c) = state c"
  "dctorLog (set_markState m k c) = dctorLog c"
  by (simp_all add: set_markState_def)

lemma set_markState_metas:
  "metas (set_markState m k c) = (metas c)(m := map_option (\<lambda>x. x\<lparr>markState := k\<rparr>) (metas c m))"
  by (simp add: set_markState_def)

lemma delete_meta_fields [simp]:
  "ptrs (delete_meta m c) = ptrs c"
  "classes (delete_meta m c) = classes c"
  "isCreatingObj (delete_meta m c) = isCreatingObj c"
  "pointers (delete_meta m c) = pointers c"
  "grayObjs (delete_meta m c) = grayObjs c"
  "metaSet (delete_meta m c) = metaSet c"
  "nextSweeping (delete_meta m c) = nextSweeping c"
  "nextRootMarking (delete_meta m c) = nextRootMarking c"
  "state (delete_meta m c) = state c"
  "metas (delete_meta m c) = (metas c)(m := None)"
  "dctorLog (delete_meta m c) = dctorLog c @ [Dctor m, Free m]"
  by (simp_all add: delete_meta_def)

lemma swept_0: "swept 0 c = c"
  by (simp add: swept_def sweep_visited_def)

lemma is_unmarked_upd:
  "q \<noteq> m \<Longrightarrow> is_unmarked (c\<lparr>metas := (metas c)(m := v)\<rparr>) q = is_unmarked c q"
  by (simp add: is_unmarked_def)

lemma sweepStep_dead:
  assumes "nextSweeping c < length (metaSet c)"
    and "is_unmarked c (metaSet c ! nextSweeping c)"
  shows "sweepStep c = Some (delete_meta (metaSet c ! nextSweeping c)
      (c\<lparr>metaSet := take (nextSweeping c) (metaSet c) @ drop (Suc (nextSweeping c)) (metaSet c)\<rparr>))"
  using assms by (auto simp: sweepStep_def Let_def is_unmarked_def)

lemma sweepStep_kept:
  assumes "nextSweeping c < length (metaSet c)"
    and "metas c (metaSet c ! nextSweeping c) \<noteq> None"
    and "\<not> is_unmarked c (metaSet c ! nextSweeping c)"
  shows "sweepStep c = Some ((set_markState (metaSet c ! nextSweeping c) Unmarked c)
      \<lparr>nextSweeping := Suc (nextSweeping c)\<rparr>)"
  using assms by (auto simp: sweepStep_def Let_def is_unmarked_def)

lemma swept_Suc_dead:
  assumes i: "nextSweeping c < length (metaSet c)"
    and dist: "distinct (metaSet c)"
    and dead: "is_unmarked c (metaSet c ! nextSweeping c)"
  shows "swept k (delete_meta (metaSet c ! nextSweeping c)
      (c\<lparr>metaSet := take (nextSweeping c) (metaSet c) @ drop (Suc (nextSweeping c)) (metaSet c)\<rparr>))
    = swept (Suc k) c"
proof -
  let ?i = "nextSweeping c"
  let ?ms = "metaSet c"
  let ?m = "?ms ! ?i"
  let ?c1 = "delete_meta ?m (c\<lparr>metaSet := take ?i ?ms @ drop (Suc ?i) ?ms\<rparr>)"
  let ?v = "take k (drop (Suc ?i) ?ms)"
  have dr: "drop ?i ?ms = ?m # drop (Suc ?i) ?ms" using i by (simp add: Cons_nth_drop_Suc)
  have "distinct (drop ?i ?ms)" using dist by simp
  with dr have "?m \<notin> set (drop (Suc ?i) ?ms)" by simp
  then have mv: "?m \<notin> set ?v" by (auto dest: in_set_takeD)
  have vis1: "sweep_visited k ?c1 = ?v"
    using i by (simp add: sweep_visited_def)
  have vis: "sweep_visited (Suc k) c = ?m # ?v"
    by (simp add: sweep_visited_def dr)
  have un: "is_unmarked ?c1 q = is_unmarked c q" if "q \<in> set ?v" for q
    using that mv by (auto simp: is_unmarked_def)
  have f1: "filter (is_unmarked ?c1) ?v = filter (is_unmarked c) ?v"
    using un by (auto intro: filter_cong)
  have f2: "filter (\<lambda>m. \<not> is_unmarked ?c1 m) ?v = filter (\<lambda>m. \<not> is_unmarked c m) ?v"
    using un by (auto intro: filter_cong)
  have tk: "take ?i (take ?i ?ms @ drop (Suc ?i) ?ms) = take ?i ?ms" using i by simp
  have dk: "drop (?i + k) (take ?i ?ms @ drop (Suc ?i) ?ms) = drop (?i + Suc k) ?ms"
    using i by (simp add: add.commute)
  have ms1: "metaSet ?c1 = take ?i ?ms @ drop (Suc ?i) ?ms" and ns1: "nextSweeping ?c1 = ?i"
    and mt1: "metas ?c1 = (metas c)(?m := None)"
    and lg1: "dctorLog ?c1 = dctorLog c @ [Dctor ?m, Free ?m]"
    by simp_all
  show ?thesis
  proof (rule Collector.equality)
    show "metaSet (swept k ?c1) = metaSet (swept (Suc k) c)"
      using dead tk dk by (simp add: swept_def Let_def vis1 vis f1 f2 ms1 ns1)
    show "nextSweeping (swept k ?c1) = nextSweeping (swept (Suc k) c)"
      using dead by (simp add: swept_def Let_def vis1 vis f1 f2 ns1)
    show "metas (swept k ?c1) = metas (swept (Suc k) c)"
      using dead mv by (auto simp: swept_def Let_def vis1 vis f1 f2 mt1 fun_eq_iff)
    show "dctorLog (swept k ?c1) = dctorLog (swept (Suc k) c)"
      using dead by (simp add: swept_def Let_def vis1 vis f1 f2 lg1)
  qed (simp_all add: swept_def Let_def)
qed

lemma swept_Suc_kept:
  assumes i: "nextSweeping c < length (metaSet c)"
    and dist: "distinct (metaSet c)"
    and kept: "\<not> is_unmarked c (metaSet c ! nextSweeping c)"
  shows "swept k ((set_markState (metaSet c ! nextSweeping c) Unmarked c)
      \<lparr>nextSweeping := Suc (nextSweeping c)\<rparr>)
    = swept (Suc k) c"
proof -
  let ?i = "nextSweeping c"
  let ?ms = "metaSet c"
  let ?m = "?ms ! ?i"
  let ?c1 = "(set_markState ?m Unmarked c)\<lparr>nextSweeping := Suc ?i\<rparr>"
  let ?v = "take k (drop (Suc ?i) ?ms)"
  have dr: "drop ?i ?ms = ?m # drop (Suc ?i) ?ms" using i by (simp add: Cons_nth_drop_Suc)
  have "distinct (drop ?i ?ms)" using dist by simp
  with dr have "?m \<notin> set (drop (Suc ?i) ?ms)" by simp
  then have mv: "?m \<notin> set ?v" by (auto dest: in_set_takeD)
  have vis1: "sweep_visited k ?c1 = ?v"
    by (simp add: sweep_visited_def)
  have vis: "sweep_visited (Suc k) c = ?m # ?v"
    by (simp add: sweep_visited_def dr)
  have un: "is_unmarked ?c1 q = is_unmarked c q" if "q \<in> set ?v" for q
    using that mv by (auto simp: set_markState_metas is_unmarked_def)
  have f1: "filter (is_unmarked ?c1) ?v = filter (is_unmarked c) ?v"
    using un by (auto intro: filter_cong)
  have f2: "filter (\<lambda>m. \<not> is_unmarked ?c1 m) ?v = filter (\<lambda>m. \<not> is_unmarked c m) ?v"
    using un by (auto intro: filter_cong)
  have tk: "take (Suc ?i) ?ms = take ?i ?ms @ [?m]" using i by (simp add: take_Suc_conv_app_nth)
  have ms1: "metaSet ?c1 = ?ms" and ns1: "nextSweeping ?c1 = Suc ?i"
    and mt1: "metas ?c1 = (metas c)(?m := map_option (\<lambda>x. x\<lparr>markState := Unmarked\<rparr>) (metas c ?m))"
    and lg1: "dctorLog ?c1 = dctorLog c"
    by (simp_all add: set_markState_metas)
  show ?thesis
  proof (rule Collector.equality)
    show "metaSet (swept k ?c1) = metaSet (swept (Suc k) c)"
      using kept tk by (simp add: swept_def Let_def vis1 vis f1 f2 ms1 ns1)
    show "nextSweeping (swept k ?c1) = nextSweeping (swept (Suc k) c)"
      using kept by (simp add: swept_def Let_def vis1 vis f1 f2 ns1)
    show "metas (swept k ?c1) = metas (swept (Suc k) c)"
      using kept mv by (auto simp: swept_def Let_def vis1 vis f1 f2 mt1 fun_eq_iff)
    show "dctorLog (swept k ?c1) = dctorLog (swept (Suc k) c)"
      using kept by (simp add: swept_def Let_def vis1 vis f1 f2 lg1)
  qed (simp_all add: swept_def Let_def)
qed

lemma collect_sweep:
  assumes "state c = Sweeping" "distinct (metaSet c)"
    and "set (sweep_visited k c) \<subseteq> dom (metas c)"
    and "k \<le> length (metaSet c) - nextSweeping c" "int k \<le> n"
  shows "collect n c = collect (n - int k) (swept k c)"
  using assms
proof (induction k arbitrary: c n)
  case 0
  then show ?case by (simp add: swept_0)
next
  case (Suc k)
  let ?i = "nextSweeping c"
  let ?ms = "metaSet c"
  let ?m = "?ms ! ?i"
  from Suc.prems(4) have i: "?i < length ?ms" by simp
  from Suc.prems(5) have n: "0 < n" by simp
  have dr: "drop ?i ?ms = ?m # drop (Suc ?i) ?ms" using i by (simp add: Cons_nth_drop_Suc)
  have vis: "sweep_visited (Suc k) c = ?m # take k (drop (Suc ?i) ?ms)"
    by (simp add: sweep_visited_def dr)
  with Suc.prems(3) have alloc: "metas c ?m \<noteq> None" by auto
  show ?case
  proof (cases "is_unmarked c ?m")
    case True
    let ?c1 = "delete_meta ?m (c\<lparr>metaSet := take ?i ?ms @ drop (Suc ?i) ?ms\<rparr>)"
    have step: "sweepStep c = Some ?c1" using i True by (rule sweepStep_dead)
    have "distinct (take ?i ?ms @ drop ?i ?ms)" using Suc.prems(2) by simp
    then have "distinct (take ?i ?ms @ drop (Suc ?i) ?ms)" unfolding dr by simp
    then have d1: "distinct (metaSet ?c1)" by simp
    have v1: "sweep_visited k ?c1 = take k (drop (Suc ?i) ?ms)"
      using i by (simp add: sweep_visited_def)
    have "distinct (drop ?i ?ms)" using Suc.prems(2) by simp
    then have "?m \<notin> set (drop (Suc ?i) ?ms)" unfolding dr by simp
    then have "?m \<notin> set (take k (drop (Suc ?i) ?ms))" by (auto dest: in_set_takeD)
    with Suc.prems(3) vis have a1: "set (sweep_visited k ?c1) \<subseteq> dom (metas ?c1)"
      unfolding v1 by auto
    have k1: "k \<le> length (metaSet ?c1) - nextSweeping ?c1"
      using Suc.prems(4) i by simp
    have st1: "state ?c1 = Sweeping" using Suc.prems(1) by simp
    have n1: "int k \<le> n - 1" using Suc.prems(5) by simp
    have "collect n c = collect (n - 1) ?c1"
      using Suc.prems(1) i n step by (subst collect.simps) simp
    also have "\<dots> = collect (n - 1 - int k) (swept k ?c1)"
      using st1 d1 a1 k1 n1 by (rule Suc.IH)
    also have "swept k ?c1 = swept (Suc k) c"
      using i Suc.prems(2) True by (rule swept_Suc_dead)
    finally show ?thesis by (simp add: algebra_simps)
  next
    case False
    let ?c1 = "(set_markState ?m Unmarked c)\<lparr>nextSweeping := Suc ?i\<rparr>"
    have step: "sweepStep c = Some ?c1" using i alloc False by (rule sweepStep_kept)
    have d1: "distinct (metaSet ?c1)" using Suc.prems(2) by simp
    have v1: "sweep_visited k ?c1 = take k (drop (Suc ?i) ?ms)"
      by (simp add: sweep_visited_def)
    from Suc.prems(3) vis have a1: "set (sweep_visited k ?c1) \<subseteq> dom (metas ?c1)"
      unfolding v1 by (auto simp: set_markState_metas)
    have k1: "k \<le> length (metaSet ?c1) - nextSweeping ?c1"
      using Suc.prems(4) i by simp
    have st1: "state ?c1 = Sweeping" using Suc.prems(1) by simp
    have n1: "int k \<le> n - 1" using Suc.prems(5) by simp
    have "collect n c = collect (n - 1) ?c1"
      using Suc.prems(1) i n step by (subst collect.simps) simp
    also have "\<dots> = collect (n - 1 - int k) (swept k ?c1)"
      using st1 d1 a1 k1 n1 by (rule Suc.IH)
    also have "swept k ?c1 = swept (Suc k) c"
      using i Suc.prems(2) False by (rule swept_Suc_kept)
    finally show ?thesis by (simp add: algebra_simps)
  qed
qed

lemma swept_fields [simp]:
  "state (swept k c) = state c"
  "ptrs (swept k c) = ptrs c"
  "pointers (swept k c) = pointers c"
  "grayObjs (swept k c) = grayObjs c"
  "nextRootMarking (swept k c) = nextRootMarking c"
  "classes (swept k c) = classes c"
  by (simp_all add: swept_def Let_def)



lemma swept_kept:
  assumes "m \<in> set (sweep_visited k c)" "metas c m \<noteq> None" "\<not> is_unmarked c m"
  shows "m \<in> set (metaSet (swept k c))"
    and "map_option markState (metas (swept k c) m) = Some Unmarked"
  using assms by (auto simp: swept_def Let_def)



lemma heap_chain_sweeping_reached: "collect 7 heap_chain = Some heap_chain_sweeping"
  by (simp add: heap_chain_sweeping_def heap_chain_def cs_node_def eval_simps fun_eq_iff)

lemmas heap_chain_sweeping_simps = heap_chain_sweeping_def heap_chain_def Collector_init_def
  cs_node_def


section \<open>The write barrier during the sweep\<close>

lemma collect_final:
  assumes "collect n c = Some c'"
    and "\<And>c. state c = RootMarking \<Longrightarrow> nextRootMarking c < length (pointers c) \<Longrightarrow> Q c"
    and "\<And>c. state c = ChildMarking \<Longrightarrow> grayObjs c \<noteq> [] \<Longrightarrow> Q c"
    and "\<And>c. state c = Sweeping \<Longrightarrow> nextSweeping c < length (metaSet c) \<Longrightarrow> Q c"
    and "\<And>c. state c = Sweeping \<Longrightarrow> \<not> nextSweeping c < length (metaSet c) \<Longrightarrow>
       metaSet c = [] \<Longrightarrow> Q (c\<lparr>state := RootMarking\<rparr>)"
  shows "Q c'"
  using assms(1)
proof (induction n c rule: collect.induct)
  case (1 n c)
  note eq = "1.prems"(1) [unfolded collect.simps [of n c]]
  show ?case
  proof (cases "state c")
    case RootMarking
    show ?thesis
    proof (cases "nextRootMarking c < length (pointers c)")
      case True
      show ?thesis
      proof (cases "n > 0")
        case pos: True
        with eq RootMarking True obtain c1 where
          c1: "rootMarkStep c = Some c1" "collect (n - 1) c1 = Some c'"
          by (auto split: option.splits)
        from "1.IH"(1) [OF RootMarking True pos c1(1) c1(2)] show ?thesis .
      next
        case False
        with eq RootMarking True have "c' = c" by simp
        with RootMarking True show ?thesis by (simp add: assms(2))
      qed
    next
      case False
      with eq RootMarking have
        "collect n (c\<lparr>state := ChildMarking, nextRootMarking := 0\<rparr>) = Some c'" by simp
      with "1.IH"(2) [OF RootMarking False] show ?thesis by blast
    qed
  next
    case ChildMarking
    show ?thesis
    proof (cases "grayObjs c \<noteq> []")
      case True
      show ?thesis
      proof (cases "n > 0")
        case pos: True
        with eq ChildMarking True obtain c1 k where
          c1: "childMarkStep c = Some (c1, k)" "collect (n - 1 - int k) c1 = Some c'"
          by (auto split: option.splits)
        from "1.IH"(3) [OF ChildMarking True pos c1(1) refl c1(2)] show ?thesis .
      next
        case False
        with eq ChildMarking True have "c' = c" by simp
        with ChildMarking True show ?thesis by (simp add: assms(3))
      qed
    next
      case False
      with eq ChildMarking have
        "collect n (c\<lparr>state := Sweeping, nextSweeping := 0\<rparr>) = Some c'" by simp
      with "1.IH"(4) [OF ChildMarking False] show ?thesis by blast
    qed
  next
    case Sweeping
    show ?thesis
    proof (cases "nextSweeping c < length (metaSet c)")
      case True
      show ?thesis
      proof (cases "n > 0")
        case pos: True
        with eq Sweeping True obtain c1 where
          c1: "sweepStep c = Some c1" "collect (n - 1) c1 = Some c'"
          by (auto split: option.splits)
        from "1.IH"(5) [OF Sweeping True pos c1(1) c1(2)] show ?thesis .
      next
        case False
        with eq Sweeping True have "c' = c" by simp
        with Sweeping True show ?thesis by (simp add: assms(4))
      qed
    next
      case False
      show ?thesis
      proof (cases "metaSet c \<noteq> []")
        case True
        with eq Sweeping False have "collect n (c\<lparr>state := RootMarking\<rparr>) = Some c'" by simp
        with "1.IH"(6) [OF Sweeping False True] show ?thesis by blast
      next
        case ms: False
        with eq Sweeping False have "c' = c\<lparr>state := RootMarking\<rparr>" by auto
        with Sweeping False ms show ?thesis by (simp add: assms(5))
      qed
    qed
  qed
qed

lemma collect_sweeping_cursor:
  assumes "collect n c = Some c'" "state c' = Sweeping"
  shows "nextSweeping c' < length (metaSet c')"
proof -
  have "state c' = Sweeping \<longrightarrow> nextSweeping c' < length (metaSet c')"
    using assms(1) by (rule collect_final) simp_all
  with assms(2) show ?thesis by simp
qed

lemma metaSet_strict_distinct:
  assumes "metaSet_strict c"
  shows "distinct (metaSet c)"
proof -
  have "sorted_wrt (meta_lt c) xs \<Longrightarrow> \<forall>m \<in> set xs. \<not> meta_lt c m m \<Longrightarrow> distinct xs" for xs
    by (induction xs) auto
  with assms show ?thesis by (simp add: metaSet_strict_def metaSet_ok_def)
qed

lemma behind_cursor_iff:
  assumes ok: "metaSet_strict c"
    and i: "i < length (metaSet c)" and j: "j < length (metaSet c)"
    and x: "metas c (metaSet c ! j) = Some x" and cur: "metas c (metaSet c ! i) = Some cur"
  shows "ObjMeta_less (classes c) x cur \<longleftrightarrow> j < i"
proof
  assume "j < i"
  with ok i have "meta_lt c (metaSet c ! j) (metaSet c ! i)"
    by (simp add: metaSet_strict_def metaSet_ok_def sorted_wrt_nth_less)
  with x cur show "ObjMeta_less (classes c) x cur" by (simp add: meta_lt_def)
next
  assume less: "ObjMeta_less (classes c) x cur"
  show "j < i"
  proof (rule ccontr)
    assume "\<not> j < i"
    then consider "i = j" | "i < j" by linarith
    then show False
    proof cases
      case 1
      with x cur less have "meta_lt c (metaSet c ! j) (metaSet c ! j)" by (simp add: meta_lt_def)
      moreover have "\<not> meta_lt c (metaSet c ! j) (metaSet c ! j)"
        using ok j by (simp add: metaSet_strict_def)
      ultimately show False by simp
    next
      case 2
      with ok j have "meta_lt c (metaSet c ! i) (metaSet c ! j)"
        by (simp add: metaSet_strict_def metaSet_ok_def sorted_wrt_nth_less)
      with x cur have "ObjMeta_less (classes c) cur x" by (simp add: meta_lt_def)
      with less have "ObjMeta_less (classes c) x x" by (simp add: ObjMeta_less_def)
      with x have "meta_lt c (metaSet c ! j) (metaSet c ! j)" by (simp add: meta_lt_def)
      moreover have "\<not> meta_lt c (metaSet c ! j) (metaSet c ! j)"
        using ok j by (simp add: metaSet_strict_def)
      ultimately show False by simp
    qed
  qed
qed

text \<open>
  The barrier between two calls of \<open>collect\<close>. The collector is in state Sweeping, as a
  call of \<open>collect\<close> leaves it: the cursor is before the end of the set. The handle \<open>p\<close>
  points to the header at position \<open>j\<close> of the set, whose mark is \<open>Unmarked\<close>. Then the
  write barrier does not fault; when the header is not behind the cursor
  (\<open>nextSweeping \<le> j\<close>: not yet visited) its mark becomes \<open>Alive\<close> and nothing else
  changes, and the rest of the sweep keeps the header in the set; when it is behind the
  cursor nothing changes.
\<close>

lemma barrier_before_end:
  assumes "state c = Sweeping" "metaSet_strict c" "nextSweeping c < length (metaSet c)"
    and "ptrs c p = Some h" "meta h = Some m" "metas c m = Some x" "markState x = Unmarked"
    and "j < length (metaSet c)" "metaSet c ! j = m"
  shows "onPointeeChanged p c = Some (if nextSweeping c \<le> j then set_markState m Alive c else c) \<and>
    (nextSweeping c \<le> j \<longrightarrow>
       map_option markState (metas (set_markState m Alive c) m) = Some Alive \<and>
       (\<forall>n. int (length (metaSet c) - nextSweeping c) \<le> n \<longrightarrow>
          collect n (set_markState m Alive c)
            = collect (n - int (length (metaSet c) - nextSweeping c))
                (swept (length (metaSet c) - nextSweeping c) (set_markState m Alive c)) \<and>
          m \<in> set (metaSet (swept (length (metaSet c) - nextSweeping c) (set_markState m Alive c))) \<and>
          metas (swept (length (metaSet c) - nextSweeping c) (set_markState m Alive c)) m \<noteq> None))"
proof (intro conjI impI allI)
  let ?i = "nextSweeping c"
  have "metaSet c ! ?i \<in> set (metaSet c)" using assms(3) by simp
  moreover have "set (metaSet c) \<subseteq> dom (metas c)"
    using assms(2) by (simp add: metaSet_strict_def metaSet_ok_def)
  ultimately obtain cur where cur: "metas c (metaSet c ! ?i) = Some cur" by blast
  have "ObjMeta_less (classes c) x cur \<longleftrightarrow> j < ?i"
    using assms(2,3,8) assms(6) [folded assms(9)] cur by (rule behind_cursor_iff)
  then show "onPointeeChanged p c = Some (if ?i \<le> j then set_markState m Alive c else c)"
    using assms(1,3,4,5,6,7) cur by (simp add: onPointeeChanged_def not_less)
next
  show "map_option markState (metas (set_markState m Alive c) m) = Some Alive"
    using assms(6) by (simp add: set_markState_metas)
next
  fix n
  let ?i = "nextSweeping c"
  let ?k = "length (metaSet c) - ?i"
  let ?c' = "set_markState m Alive c"
  assume ahead: "?i \<le> j" and n: "int ?k \<le> n"
  have dist: "distinct (metaSet ?c')" using assms(2) by (simp add: metaSet_strict_distinct)
  have "set (metaSet c) \<subseteq> dom (metas c)"
    using assms(2) by (simp add: metaSet_strict_def metaSet_ok_def)
  then have al: "set (sweep_visited ?k ?c') \<subseteq> dom (metas ?c')"
    by (auto simp: sweep_visited_def set_markState_metas dest: in_set_dropD)
  have st: "state ?c' = Sweeping" using assms(1) by simp
  have k: "?k \<le> length (metaSet ?c') - nextSweeping ?c'" by simp
  show "collect n ?c' = collect (n - int ?k) (swept ?k ?c')"
    using st dist al k n by (rule collect_sweep)
  have "m \<in> set (drop ?i (metaSet c))"
  proof -
    have "drop ?i (metaSet c) ! (j - ?i) = metaSet c ! j" using ahead assms(8) by simp
    moreover have "j - ?i < length (drop ?i (metaSet c))" using ahead assms(8) by simp
    ultimately show ?thesis using assms(9) by (metis nth_mem)
  qed
  then have vis: "m \<in> set (sweep_visited ?k ?c')" by (simp add: sweep_visited_def)
  have alm: "metas ?c' m \<noteq> None" using assms(6) by (simp add: set_markState_metas)
  have nu: "\<not> is_unmarked ?c' m" using assms(6) by (simp add: is_unmarked_def set_markState_metas)
  show "m \<in> set (metaSet (swept ?k ?c'))" using vis alm nu by (rule swept_kept)
  have "map_option markState (metas (swept ?k ?c') m) = Some Unmarked"
    using vis alm nu by (rule swept_kept)
  then show "metas (swept ?k ?c') m \<noteq> None" by auto
qed

lemma heap_chain_swept1_reached: "collect 1 heap_chain_sweeping = Some heap_chain_swept1"
  by (simp add: heap_chain_swept1_def heap_chain_sweeping_simps eval_simps fun_eq_iff)

text \<open>
  Both cases on the chain: the unreachable third node, stored in the root handle before
  the sweep reaches it, is rescued; the first node, already visited, is left as it is.
\<close>

lemma barrier_before_end_on_chain:
  "state heap_chain_rescue = Sweeping \<and> metaSet_strict heap_chain_rescue \<and>
   nextSweeping heap_chain_rescue < length (metaSet heap_chain_rescue) \<and>
   ptrs heap_chain_rescue 10 = Some \<lparr>meta = Some 3000, isRoot = True, index = 0\<rparr> \<and>
   metas heap_chain_rescue 3000
     = Some \<lparr>clsInfo = 0, markState = Unmarked, arrayLength = 1, objPtr = 3008\<rparr> \<and>
   2 < length (metaSet heap_chain_rescue) \<and> metaSet heap_chain_rescue ! 2 = 3000 \<and>
   nextSweeping heap_chain_rescue \<le> 2 \<and>
   onPointeeChanged 10 heap_chain_rescue = Some (set_markState 3000 Alive heap_chain_rescue) \<and>
   int (length (metaSet heap_chain_rescue) - nextSweeping heap_chain_rescue) \<le> 3 \<and>
   3000 \<in> set (metaSet (swept (length (metaSet heap_chain_rescue) - nextSweeping heap_chain_rescue)
      (set_markState 3000 Alive heap_chain_rescue))) \<and>
   state heap_chain_swept1 = Sweeping \<and> metaSet_strict heap_chain_swept1 \<and>
   nextSweeping heap_chain_swept1 < length (metaSet heap_chain_swept1) \<and>
   ptrs heap_chain_swept1 10 = Some \<lparr>meta = Some 1000, isRoot = True, index = 0\<rparr> \<and>
   metas heap_chain_swept1 1000
     = Some \<lparr>clsInfo = 0, markState = Unmarked, arrayLength = 1, objPtr = 1008\<rparr> \<and>
   0 < length (metaSet heap_chain_swept1) \<and> metaSet heap_chain_swept1 ! 0 = 1000 \<and>
   \<not> nextSweeping heap_chain_swept1 \<le> 0 \<and>
   onPointeeChanged 10 heap_chain_swept1 = Some heap_chain_swept1"
proof -
  let ?a = heap_chain_rescue
  let ?b = heap_chain_swept1
  have a: "state ?a = Sweeping" "metaSet_strict ?a" "nextSweeping ?a < length (metaSet ?a)"
    "ptrs ?a 10 = Some \<lparr>meta = Some 3000, isRoot = True, index = 0\<rparr>"
    "meta \<lparr>meta = Some 3000, isRoot = True, index = 0\<rparr> = Some 3000"
    "metas ?a 3000 = Some \<lparr>clsInfo = 0, markState = Unmarked, arrayLength = 1, objPtr = 3008\<rparr>"
    "markState \<lparr>clsInfo = 0, markState = Unmarked, arrayLength = 1, objPtr = 3008\<rparr> = Unmarked"
    "2 < length (metaSet ?a)" "metaSet ?a ! 2 = 3000"
    by (simp_all add: heap_chain_rescue_def set_meta_def heap_chain_sweeping_simps
        metaSet_strict_def metaSet_ok_def meta_lt_def ObjMeta_less_def)
  have a': "nextSweeping ?a \<le> 2" "int (length (metaSet ?a) - nextSweeping ?a) \<le> 3"
    by (simp_all add: heap_chain_rescue_def set_meta_def heap_chain_sweeping_simps)
  have b: "state ?b = Sweeping" "metaSet_strict ?b" "nextSweeping ?b < length (metaSet ?b)"
    "ptrs ?b 10 = Some \<lparr>meta = Some 1000, isRoot = True, index = 0\<rparr>"
    "meta \<lparr>meta = Some 1000, isRoot = True, index = 0\<rparr> = Some 1000"
    "metas ?b 1000 = Some \<lparr>clsInfo = 0, markState = Unmarked, arrayLength = 1, objPtr = 1008\<rparr>"
    "markState \<lparr>clsInfo = 0, markState = Unmarked, arrayLength = 1, objPtr = 1008\<rparr> = Unmarked"
    "0 < length (metaSet ?b)" "metaSet ?b ! 0 = 1000"
    by (simp_all add: heap_chain_swept1_def set_markState_metas heap_chain_sweeping_simps
        metaSet_strict_def metaSet_ok_def meta_lt_def ObjMeta_less_def)
  have b': "\<not> nextSweeping ?b \<le> 0"
    by (simp add: heap_chain_swept1_def)
  note tha = barrier_before_end [OF a]
  note thb = barrier_before_end [OF b]
  from tha a' have "onPointeeChanged 10 ?a = Some (set_markState 3000 Alive ?a)"
    "3000 \<in> set (metaSet (swept (length (metaSet ?a) - nextSweeping ?a) (set_markState 3000 Alive ?a)))"
    by auto
  moreover from thb b' have "onPointeeChanged 10 ?b = Some ?b" by auto
  ultimately show ?thesis using a a' b b' by simp
qed

section \<open>The tri-color invariant during ChildMarking\<close>

text \<open>
  C1. The invariant does not hold on the code. From the chain of three nodes, before
  any marking (where it holds), \<open>collect(5)\<close> returns in state ChildMarking with the
  first node \<open>Alive\<close>, its child still \<open>Unmarked\<close> and in the work list: the ChildMarking
  loop pushes an \<open>Unmarked\<close> child without setting its mark to \<open>Gray\<close>, as
  \<open>tryMarkRoot\<close> does before it pushes. An \<open>Alive\<close> object then references an
  \<open>Unmarked\<close> one, and the work list holds an object that is not \<open>Gray\<close>.
\<close>

theorem tricolour_broken_by_childMarking:
  "tricolour heap_chain \<and>
   collect 5 heap_chain = Some heap_chain_marking \<and>
   state heap_chain_marking = ChildMarking \<and>
   1000 \<in> set (metaSet heap_chain_marking) \<and> has_mark heap_chain_marking Alive 1000 \<and>
   2000 \<in> set (children heap_chain_marking 1000) \<and> has_mark heap_chain_marking Unmarked 2000 \<and>
   grayObjs heap_chain_marking = [2000] \<and> \<not> has_mark heap_chain_marking Gray 2000 \<and>
   \<not> tricolour heap_chain_marking"
proof -
  have t0: "tricolour heap_chain"
    by (simp add: tricolour_def has_mark_def heap_chain_def Collector_init_def)
  have f: "1000 \<in> set (metaSet heap_chain_marking)" "has_mark heap_chain_marking Alive 1000"
    "2000 \<in> set (children heap_chain_marking 1000)" "has_mark heap_chain_marking Unmarked 2000"
    "grayObjs heap_chain_marking = [2000]" "\<not> has_mark heap_chain_marking Gray 2000"
    "state heap_chain_marking = ChildMarking"
    by (simp_all add: has_mark_def children_def enumPtrs_def List.map_filter_simps
        heap_chain_marking_def heap_chain_def Collector_init_def cs_node_def)
  from f(1-4) have "\<not> tricolour heap_chain_marking"
    unfolding tricolour_def by blast
  with t0 f heap_chain_marking_reached show ?thesis by simp
qed

theorem tricolour_broken_by_childMarking_witness:
  "\<exists>c. collect 5 heap_chain = Some c \<and> state c = ChildMarking \<and> \<not> tricolour c"
  using tricolour_broken_by_childMarking by blast

section \<open>Move assignment of a handle\<close>

lemma GC_isRoot_handles:
  "GC_isRoot p g = Some (g1, root) \<Longrightarrow>
   \<forall>q. map_option objInfo (handles g1 q) = map_option objInfo (handles g q) \<and>
       map_option ptr (handles g1 q) = map_option ptr (handles g q)"
  by (auto simp: GC_isRoot_def Let_def split: option.splits if_splits)

lemma markAsRoot_handles:
  "markAsRoot p g = Some g1 \<Longrightarrow>
   map_option objInfo (handles g1 q) = map_option objInfo (handles g q) \<and>
   map_option ptr (handles g1 q) = map_option ptr (handles g q)"
  by (auto simp: markAsRoot_def split: option.splits if_splits dest!: GC_isRoot_handles)

lemma onPointerUpdate_handles:
  "onPointerUpdate p g = Some g1 \<Longrightarrow>
   map_option objInfo (handles g1 q) = map_option objInfo (handles g q) \<and>
   map_option ptr (handles g1 q) = map_option ptr (handles g q)"
  by (auto simp: onPointerUpdate_def split: if_splits dest: markAsRoot_handles)

lemma reset_handles:
  assumes "reset this ob n g = Some g1"
  shows "map_option objInfo (handles g1 q)
           = (if q = this then Some n else map_option objInfo (handles g q))"
    and "map_option ptr (handles g1 q)
           = (if q = this then Some ob else map_option ptr (handles g q))"
proof -
  from assms obtain h where h: "handles g this = Some h"
    and u: "onPointerUpdate this (g\<lparr>handles := (handles g)(this \<mapsto> h\<lparr>ptr := ob, objInfo := n\<rparr>)\<rparr>) = Some g1"
    by (auto simp: reset_def split: option.splits)
  from onPointerUpdate_handles [OF u, of q]
  show "map_option objInfo (handles g1 q)
           = (if q = this then Some n else map_option objInfo (handles g q))"
    and "map_option ptr (handles g1 q)
           = (if q = this then Some ob else map_option ptr (handles g q))"
    by simp_all
qed

text \<open>
  What the move assignment does to two different handles: the target holds the
  source's former \<open>ptr\<close> and \<open>objInfo\<close>, the barrier has run on the target, the
  source's \<open>objInfo\<close> is null, and the source's \<open>ptr\<close> is what it was.
\<close>

lemma move_assign_result:
  assumes "move_assign this r g = Some g'" "this \<noteq> r" "handles g r = Some hr"
  shows "\<exists>g1 ht' hr'. reset this (ptr hr) (objInfo hr) g = Some g1 \<and>
     handles g' this = Some ht' \<and> handles g' r = Some hr' \<and>
     ptr ht' = ptr hr \<and> objInfo ht' = objInfo hr \<and>
     objInfo hr' = None \<and> ptr hr' = ptr hr"
proof -
  from assms(1,3) obtain g1 hr1 where g1: "reset this (ptr hr) (objInfo hr) g = Some g1"
    and hr1: "handles g1 r = Some hr1"
    and g': "g' = g1\<lparr>handles := (handles g1)(r \<mapsto> hr1\<lparr>objInfo := None\<rparr>)\<rparr>"
    by (auto simp: move_assign_def split: option.splits)
  from reset_handles [OF g1, of this] have
    "map_option objInfo (handles g1 this) = Some (objInfo hr)"
    "map_option ptr (handles g1 this) = Some (ptr hr)" by simp_all
  then obtain ht where ht: "handles g1 this = Some ht" "objInfo ht = objInfo hr" "ptr ht = ptr hr"
    by auto
  from reset_handles(2) [OF g1, of r] assms(2,3) hr1 have "ptr hr1 = ptr hr" by simp
  with g1 ht g' assms(2) show ?thesis by simp
qed

text \<open>
  C9. After \<open>handle = move(handle2)\<close> on two different handles the target holds the
  source's former pointee and \<open>objInfo\<close> and the barrier has run on the target; the
  source compares equal to an empty handle (its \<open>objInfo\<close> is null), but its boolean
  conversion is what it was before the move, because \<open>ptr\<close> is not cleared: the source of
  a move from a handle that held an object still converts to \<open>true\<close>.
\<close>

theorem move_assign_keeps_source_ptr:
  assumes "move_assign this r g = Some g'" "this \<noteq> r" "handles g r = Some hr"
  shows "\<exists>ht' hr'. handles g' this = Some ht' \<and> handles g' r = Some hr' \<and>
     ptr ht' = ptr hr \<and> objInfo ht' = objInfo hr \<and>
     operator_eq hr' null_gc_ptr \<and> (operator_bool hr' \<longleftrightarrow> operator_bool hr)"
  using move_assign_result [OF assms]
  by (auto simp: operator_eq_def operator_bool_def null_gc_ptr_def)

theorem move_assign_keeps_source_ptr_witness:
  "(10::addr) \<noteq> 20 \<and>
   handles gc_two_handles 20
     = Some \<lparr>owner = kInvalidObjInfo, objInfo = Some 5000, ptr = Some 5008\<rparr> \<and>
   operator_bool \<lparr>owner = kInvalidObjInfo, objInfo = Some 5000, ptr = Some 5008\<rparr> \<and>
   (\<exists>g' ht' hr'. move_assign 10 20 gc_two_handles = Some g' \<and>
      handles g' 10 = Some ht' \<and> handles g' 20 = Some hr' \<and>
      ptr ht' = Some 5008 \<and> objInfo ht' = Some 5000 \<and>
      operator_eq hr' null_gc_ptr \<and> operator_bool hr')"
proof -
  define g' where "g' = the (move_assign 10 20 gc_two_handles)"
  have mv: "move_assign 10 20 gc_two_handles = Some g'"
    unfolding g'_def
    by (simp add: move_assign_def reset_def onPointerUpdate_def gc_two_handles_def null_gc_ptr_def)
  have ne: "(10::addr) \<noteq> 20" by simp
  have hr: "handles gc_two_handles 20
     = Some \<lparr>owner = kInvalidObjInfo, objInfo = Some 5000, ptr = Some 5008\<rparr>"
    by (simp add: gc_two_handles_def)
  have b: "operator_bool \<lparr>owner = kInvalidObjInfo, objInfo = Some 5000, ptr = Some 5008\<rparr>"
    by (simp add: operator_bool_def)
  from move_assign_keeps_source_ptr [OF mv ne hr] b mv ne hr show ?thesis by auto
qed

section \<open>Incrementality\<close>








section \<open>One step at a time\<close>
























lemmas heap_chain_cycle_simps = heap_chain_last_sweep_def heap_chain_cycled_def
  heap_chain_swept1_def heap_chain_sweeping_simps gc_collect_def eval_simps

lemma heap_chain_last_sweep_reached: "gc_collect 1 heap_chain_swept1 = Some heap_chain_last_sweep"
  by (simp add: heap_chain_cycle_simps fun_eq_iff)










section \<open>What a ChildMarking unit keeps of the tri-color invariant\<close>

lemma children_unmarked:
  assumes "metas c ob = Some x" "b \<in> set (children c ob)" "has_mark c Unmarked b" "b \<noteq> ob"
  shows "b \<in> set (unmarked_children (set_markState ob Alive c) (enumPtrs (classes c) x))"
proof -
  from assms(1,2) obtain a h where a: "a \<in> set (enumPtrs (classes c) x)"
    "ptrs c a = Some h" "meta h = Some b"
    by (auto simp: children_def List.map_filter_def split: option.splits)
  from assms(3) obtain y where y: "metas c b = Some y" "markState y = Unmarked"
    by (auto simp: has_mark_def)
  have "(case ptrs (set_markState ob Alive c) a of
          None \<Rightarrow> None
        | Some h \<Rightarrow>
            (case meta h of
               None \<Rightarrow> None
             | Some m \<Rightarrow>
                 (case metas (set_markState ob Alive c) m of
                    None \<Rightarrow> None
                  | Some x \<Rightarrow> if markState x = Unmarked then Some m else None))) = Some b"
    using a(2,3) y assms(4) by (simp add: set_markState_metas)
  with a(1) show ?thesis
    unfolding unmarked_children_def List.map_filter_def by force
qed

lemma weak_tricolour_childMarkStep:
  assumes inv: "weak_tricolour c" and g: "grayObjs c \<noteq> []"
    and x: "metas c (last (grayObjs c)) = Some x"
    and ok: "subs_ok c (enumPtrs (classes c) x)"
    and step: "childMarkStep c = Some (c', k)"
  shows "weak_tricolour c'"
proof -
  let ?ob = "last (grayObjs c)"
  let ?U = "unmarked_children (set_markState ?ob Alive c) (enumPtrs (classes c) x)"
  from childMarkStep_result [OF x ok] step have c': "c' = c\<lparr>grayObjs := butlast (grayObjs c) @ ?U,
      metas := (metas c)(?ob \<mapsto> x\<lparr>markState := Alive\<rparr>)\<rparr>" by simp
  have mark: "has_mark c' k m \<longleftrightarrow> (if m = ?ob then k = Alive else has_mark c k m)" for k m
    by (auto simp: c' has_mark_def)
  have ch: "children c' a = children c a" for a
    using x by (simp add: c' children_def enumPtrs_def cong: option.case_cong)
  have old: "m \<in> set (grayObjs c')" if "m \<in> set (grayObjs c)" "m \<noteq> ?ob" for m
  proof -
    have "grayObjs c = butlast (grayObjs c) @ [?ob]" using g by simp
    then have "set (grayObjs c) = insert ?ob (set (butlast (grayObjs c)))"
      by (metis Un_insert_right append_Nil2 list.simps(15) set_append)
    with that show ?thesis by (auto simp: c')
  qed
  show ?thesis
    unfolding weak_tricolour_def
  proof (intro conjI allI impI)
    fix a b assume h: "has_mark c' Alive a \<and> b \<in> set (children c' a) \<and> has_mark c' Unmarked b"
    then have b: "b \<noteq> ?ob" "has_mark c Unmarked b" "b \<in> set (children c a)"
      by (auto simp: mark ch split: if_splits)
    show "b \<in> set (grayObjs c')"
    proof (cases "a = ?ob")
      case True
      with b x have "b \<in> set ?U" by (auto intro: children_unmarked)
      then show ?thesis by (simp add: c')
    next
      case False
      with h have "has_mark c Alive a" by (simp add: mark)
      with b inv have "b \<in> set (grayObjs c)" unfolding weak_tricolour_def by blast
      then show ?thesis using b(1) by (rule old)
    qed
  next
    fix m assume "has_mark c' Gray m"
    then have "m \<noteq> ?ob" "has_mark c Gray m" by (auto simp: mark split: if_splits)
    with inv show "m \<in> set (grayObjs c')" unfolding weak_tricolour_def by (blast intro: old)
  qed
qed

section \<open>The write barrier inside a destructor of the sweep\<close>

text \<open>With a destructor that does not touch the collector the step is \<open>sweepStep\<close>.\<close>

lemma sweepStep_dtor_plain: "sweepStep_dtor (\<lambda>m. Some) c = sweepStep c"
  by (simp add: sweepStep_dtor_def sweepStep_def erase_at_cursor_def Let_def
      split: option.splits)

text \<open>Erasing the last header of the set leaves the cursor at the end of the set.\<close>

lemma erase_at_cursor_last:
  assumes "Suc (nextSweeping c) = length (metaSet c)"
  shows "state (erase_at_cursor c) = state c"
    and "nextSweeping (erase_at_cursor c) = length (metaSet (erase_at_cursor c))"
  using assms by (simp_all add: erase_at_cursor_def)

text \<open>
  With the cursor at the end of the set, the barrier on a handle whose pointee is
  \<open>Unmarked\<close> reads \<open>**nextSweeping\<close>: there is no element to read.
\<close>

lemma barrier_at_end_faults:
  assumes "state c = Sweeping" "\<not> nextSweeping c < length (metaSet c)"
    and "ptrs c p = Some h" "meta h = Some m" "metas c m = Some x" "markState x = Unmarked"
  shows "onPointeeChanged p c = None"
  using assms by (simp add: onPointeeChanged_def)

text \<open>
  C6. The barrier on a handle whose pointee is \<open>Unmarked\<close> and behind the cursor does
  not leave the mark unchanged and return when it fires inside the destructor of the
  last header of the set. In the chain of three nodes the sweep has visited and
  reset the two reachable nodes and stands before the unreachable third, the last of
  the set. The step erases it, which moves the cursor to the end of the set, and
  runs its destructor with \<open>state\<close> still Sweeping. A write of the root handle there
  calls the barrier on a handle whose pointee, the first node, is \<open>Unmarked\<close> and
  behind the cursor: the barrier should return and leave the mark unchanged. It
  compares the pointee with \<open>**nextSweeping\<close>, which does not exist: the call
  faults, and so does the sweep step whose destructor makes it.
\<close>

theorem barrier_at_end_of_sweep:
  "collect 7 heap_chain = Some heap_chain_sweeping \<and>
   collect 1 heap_chain_sweeping = Some heap_chain_swept1 \<and>
   gc_collect 1 heap_chain_swept1 = Some heap_chain_last_sweep \<and>
   state heap_chain_last_sweep = Sweeping \<and>
   metaSet heap_chain_last_sweep = [1000, 2000, 3000] \<and>
   nextSweeping heap_chain_last_sweep = 2 \<and>
   has_mark heap_chain_last_sweep Unmarked 3000 \<and>
   sweepStep heap_chain_last_sweep
     = Some (delete_meta 3000 (erase_at_cursor heap_chain_last_sweep)) \<and>
   state (erase_at_cursor heap_chain_last_sweep) = Sweeping \<and>
   metaSet (erase_at_cursor heap_chain_last_sweep) = [1000, 2000] \<and>
   nextSweeping (erase_at_cursor heap_chain_last_sweep) = 2 \<and>
   map_option meta (ptrs (erase_at_cursor heap_chain_last_sweep) 10) = Some (Some 1000) \<and>
   has_mark (erase_at_cursor heap_chain_last_sweep) Unmarked 1000 \<and>
   onPointeeChanged 10 (erase_at_cursor heap_chain_last_sweep) = None \<and>
   sweepStep_dtor (\<lambda>m. onPointeeChanged 10) heap_chain_last_sweep = None"
proof -
  let ?c = heap_chain_last_sweep
  let ?e = "erase_at_cursor heap_chain_last_sweep"
  have c: "state ?c = Sweeping" "metaSet ?c = [1000, 2000, 3000]" "nextSweeping ?c = 2"
    "has_mark ?c Unmarked 3000"
    by (simp_all add: heap_chain_last_sweep_def heap_chain_def Collector_init_def has_mark_def)
  have m3: "metas ?c 3000
      = Some \<lparr>clsInfo = 0, markState = Unmarked, arrayLength = 1, objPtr = 3008\<rparr>"
    by (simp add: heap_chain_last_sweep_def heap_chain_def Collector_init_def)
  have s: "sweepStep ?c = Some (delete_meta 3000 ?e)"
    using c(2,3) m3 by (simp add: sweepStep_def erase_at_cursor_def Let_def)
  have e: "state ?e = Sweeping" "metaSet ?e = [1000, 2000]" "nextSweeping ?e = 2"
    using c(1,2,3) by (simp_all add: erase_at_cursor_def)
  have h: "ptrs ?e 10 = Some \<lparr>meta = Some 1000, isRoot = True, index = 0\<rparr>"
    by (simp add: erase_at_cursor_def heap_chain_last_sweep_def heap_chain_def
        Collector_init_def)
  have m1: "metas ?e 1000
      = Some \<lparr>clsInfo = 0, markState = Unmarked, arrayLength = 1, objPtr = 1008\<rparr>"
    by (simp add: erase_at_cursor_def heap_chain_last_sweep_def heap_chain_def
        Collector_init_def)
  have f: "onPointeeChanged 10 ?e = None"
    using e(1) _ h _ m1 by (rule barrier_at_end_faults) (simp_all add: e)
  have d: "sweepStep_dtor (\<lambda>m. onPointeeChanged 10) ?c = None"
    using c(2,3) m3 f by (simp add: sweepStep_dtor_def Let_def)
  from h have h': "map_option meta (ptrs ?e 10) = Some (Some 1000)" by simp
  from m1 have m1': "has_mark ?e Unmarked 1000" by (simp add: has_mark_def)
  from heap_chain_sweeping_reached heap_chain_swept1_reached heap_chain_last_sweep_reached
    c s e h' m1' f d
  show ?thesis by simp
qed

end
